theory Spec2Isabelle
  imports Complex_Main
begin

section \<open>JavaScript numbers\<close>

text \<open>
  The numeric core of \<^verbatim>\<open>src/app.js\<close> (\<^verbatim>\<open>umap\<close>, \<^verbatim>\<open>kmeans\<close>,
  \<^verbatim>\<open>euclideanDistance\<close>) computes on JavaScript numbers. A number is modelled as a
  real, or one of the three special values of the language: \<^verbatim>\<open>Infinity\<close>,
  \<^verbatim>\<open>-Infinity\<close> and \<^verbatim>\<open>NaN\<close>. Arithmetic on two finite values is the exact
  arithmetic of the reals: rounding, overflow by magnitude and the sign of zero are not
  modelled. The special values arise where the language produces them from finite
  operands (division by zero, logarithm and square root outside their domain, reading an
  array out of range inside an arithmetic expression) and propagate by the rules of the
  language.
\<close>

datatype jsnum = Fin real | PInf | NInf | NaN

fun is_fin :: "jsnum \<Rightarrow> bool" where
  "is_fin (Fin r) = True"
| "is_fin x = False"

fun val :: "jsnum \<Rightarrow> real" where
  "val (Fin r) = r"
| "val x = 0"

fun js_neg :: "jsnum \<Rightarrow> jsnum" where
  "js_neg (Fin a) = Fin (- a)"
| "js_neg PInf = NInf"
| "js_neg NInf = PInf"
| "js_neg NaN = NaN"

fun js_add :: "jsnum \<Rightarrow> jsnum \<Rightarrow> jsnum" where
  "js_add (Fin a) (Fin b) = Fin (a + b)"
| "js_add NaN y = NaN"
| "js_add x NaN = NaN"
| "js_add PInf NInf = NaN"
| "js_add NInf PInf = NaN"
| "js_add PInf y = PInf"
| "js_add NInf y = NInf"
| "js_add x PInf = PInf"
| "js_add x NInf = NInf"

definition js_sub :: "jsnum \<Rightarrow> jsnum \<Rightarrow> jsnum" where
  "js_sub x y = js_add x (js_neg y)"

text \<open>The sign of a number: \<open>1\<close>, \<open>0\<close> or \<open>-1\<close>; \<open>NaN\<close> has none.\<close>

fun js_sign :: "jsnum \<Rightarrow> int option" where
  "js_sign (Fin a) = Some (if a > 0 then 1 else if a < 0 then - 1 else 0)"
| "js_sign PInf = Some 1"
| "js_sign NInf = Some (- 1)"
| "js_sign NaN = None"

definition inf_of_sign :: "int \<Rightarrow> jsnum" where
  "inf_of_sign s = (if s > 0 then PInf else if s < 0 then NInf else NaN)"

fun js_mul :: "jsnum \<Rightarrow> jsnum \<Rightarrow> jsnum" where
  "js_mul (Fin a) (Fin b) = Fin (a * b)"
| "js_mul x y =
     (case (js_sign x, js_sign y) of
        (Some s, Some t) \<Rightarrow> inf_of_sign (s * t)
      | _ \<Rightarrow> NaN)"

fun js_div :: "jsnum \<Rightarrow> jsnum \<Rightarrow> jsnum" where
  "js_div (Fin a) (Fin b) =
     (if b \<noteq> 0 then Fin (a / b)
      else if a > 0 then PInf else if a < 0 then NInf else NaN)"
| "js_div (Fin a) PInf = Fin 0"
| "js_div (Fin a) NInf = Fin 0"
| "js_div PInf (Fin b) = (if b \<ge> 0 then PInf else NInf)"
| "js_div NInf (Fin b) = (if b \<ge> 0 then NInf else PInf)"
| "js_div x y = NaN"

text \<open>\<^verbatim>\<open>Math.pow(x, 2)\<close>, \<^verbatim>\<open>Math.sqrt\<close>, \<^verbatim>\<open>Math.log\<close>.\<close>

definition js_pow2 :: "jsnum \<Rightarrow> jsnum" where
  "js_pow2 x = js_mul x x"

fun js_sqrt :: "jsnum \<Rightarrow> jsnum" where
  "js_sqrt (Fin a) = (if a < 0 then NaN else Fin (sqrt a))"
| "js_sqrt PInf = PInf"
| "js_sqrt x = NaN"

fun js_log :: "jsnum \<Rightarrow> jsnum" where
  "js_log (Fin a) = (if a < 0 then NaN else if a = 0 then NInf else Fin (ln a))"
| "js_log PInf = PInf"
| "js_log x = NaN"

text \<open>The comparisons \<^verbatim>\<open><\<close> and \<^verbatim>\<open><=\<close>: false as soon as one side is \<open>NaN\<close>.\<close>

fun js_lt :: "jsnum \<Rightarrow> jsnum \<Rightarrow> bool" where
  "js_lt (Fin a) (Fin b) = (a < b)"
| "js_lt NaN y = False"
| "js_lt x NaN = False"
| "js_lt x NInf = False"
| "js_lt PInf y = False"
| "js_lt NInf y = True"
| "js_lt x PInf = True"

fun js_le :: "jsnum \<Rightarrow> jsnum \<Rightarrow> bool" where
  "js_le (Fin a) (Fin b) = (a \<le> b)"
| "js_le NaN y = False"
| "js_le x NaN = False"
| "js_le NInf y = True"
| "js_le x PInf = True"
| "js_le x NInf = False"
| "js_le PInf y = False"

text \<open>
  \<^verbatim>\<open>Math.min(...xs)\<close>: \<open>Infinity\<close> for no argument, \<open>NaN\<close> as soon as one
  argument is \<open>NaN\<close>.
\<close>

fun js_min2 :: "jsnum \<Rightarrow> jsnum \<Rightarrow> jsnum" where
  "js_min2 NaN y = NaN"
| "js_min2 x NaN = NaN"
| "js_min2 x y = (if js_lt y x then y else x)"

definition js_min :: "jsnum list \<Rightarrow> jsnum" where
  "js_min xs = foldl js_min2 PInf xs"

text \<open>
  Reading \<^verbatim>\<open>a[i]\<close> inside an arithmetic expression: out of range the language
  yields \<^verbatim>\<open>undefined\<close>, which \<^verbatim>\<open>+\<close> and \<^verbatim>\<open>-\<close> coerce to \<open>NaN\<close>.
\<close>

definition js_get :: "jsnum list \<Rightarrow> nat \<Rightarrow> jsnum" where
  "js_get a i = (if i < length a then a ! i else NaN)"

text \<open>
  \<^verbatim>\<open>Math.random()\<close> is a stream of reals, read at a position that every call
  advances. The language promises values in \<open>[0, 1)\<close>.
\<close>

type_synonym rng = "nat \<Rightarrow> real"

definition unit_rng :: "rng \<Rightarrow> bool" where
  "unit_rng rnd = (\<forall>t. 0 \<le> rnd t \<and> rnd t < 1)"

definition const_rng :: "real \<Rightarrow> rng" where
  "const_rng u t = u"

datatype error = TypeError

section \<open>Distance Module\<close>

text \<open>
  \<^verbatim>\<open>function euclideanDistance(a, b) {
    let sum = 0;
    for (let i = 0; i < a.length; i++) sum += Math.pow(a[i] - b[i], 2);
    return Math.sqrt(sum);
  }\<close>
  The loop runs over the indices of \<open>a\<close> only; \<open>b\<close> is read wherever that leads.
\<close>

type_synonym vec = "jsnum list"

definition euclideanDistance :: "vec \<Rightarrow> vec \<Rightarrow> jsnum" where
  "euclideanDistance a b =
     js_sqrt (fold (\<lambda>i sum. js_add sum (js_pow2 (js_sub (js_get a i) (js_get b i))))
                   [0..<length a] (Fin 0))"

section \<open>Cluster Engine\<close>

subsection \<open>Seeding\<close>

text \<open>
  The inner loop of the seeding: \<^verbatim>\<open>for (i = 0; i < n; i++) { r -= distances[i];
  if (r <= 0) { push; break; } }\<close>. The result is the index pushed, if any.
\<close>

fun pick :: "jsnum \<Rightarrow> jsnum list \<Rightarrow> nat \<Rightarrow> nat option" where
  "pick r [] i = None"
| "pick r (d # ds) i =
     (let r' = js_sub r d in if js_le r' (Fin 0) then Some i else pick r' ds (Suc i))"

definition seed_distances :: "vec list \<Rightarrow> vec list \<Rightarrow> nat set \<Rightarrow> jsnum list" where
  "seed_distances embeddings centroids usedIndices =
     map (\<lambda>(emb, i). if i \<in> usedIndices then Fin 0
                      else js_min (map (\<lambda>c. euclideanDistance emb c) centroids))
         (zip embeddings [0..<length embeddings])"

text \<open>
  The loop \<^verbatim>\<open>while (centroids.length < k)\<close>. A pass that pushes nothing leaves the
  condition as it was and the loop runs again on the next random number: the loop is
  partial, and not returning is the value \<open>None\<close>. The position in the random stream is
  threaded through. Whether a pass pushes depends on the arithmetic: when the total of
  the distances is \<^verbatim>\<open>Infinity\<close> or \<^verbatim>\<open>NaN\<close> (a coordinate that is
  \<^verbatim>\<open>Infinity\<close>, or a square that overflows in \<^verbatim>\<open>Math.pow\<close>), \<open>r\<close> never
  drops to \<open>0\<close> and no pass pushes, and a rounding residue can leave \<open>r\<close> positive at the
  end of a pass. Nothing about this loop returning is therefore derived from the exact
  arithmetic on finite values.
\<close>

partial_function (option) seed_loop ::
  "rng \<Rightarrow> nat \<Rightarrow> vec list \<Rightarrow> nat \<Rightarrow> vec list \<Rightarrow> nat set \<Rightarrow> (vec list \<times> nat) option" where
  "seed_loop rnd t embeddings k centroids usedIndices =
     (if length centroids < k then
        (let distances = seed_distances embeddings centroids usedIndices;
             totalDist = foldl js_add (Fin 0) distances;
             r = js_mul (Fin (rnd t)) totalDist
         in case pick r distances 0 of
              None \<Rightarrow> seed_loop rnd (Suc t) embeddings k centroids usedIndices
            | Some i \<Rightarrow> seed_loop rnd (Suc t) embeddings k
                          (centroids @ [embeddings ! i]) (insert i usedIndices))
      else Some (centroids, t))"

subsection \<open>Assign and Update\<close>

text \<open>
  \<^verbatim>\<open>let minDist = Infinity, minIdx = 0;
  for (let c = 0; c < k; c++) {
    const dist = euclideanDistance(emb, centroids[c]);
    if (dist < minDist) { minDist = dist; minIdx = c; }
  }
  return minIdx;\<close>
  The seeding leaves at least \<open>k\<close> centroids, so \<open>centroids[c]\<close> is in range.
\<close>

definition assign_step :: "vec list \<Rightarrow> vec \<Rightarrow> nat \<Rightarrow> jsnum \<times> nat \<Rightarrow> jsnum \<times> nat" where
  "assign_step centroids emb c st =
     (let dist = euclideanDistance emb (centroids ! c)
      in if js_lt dist (fst st) then (dist, c) else st)"

definition assign :: "nat \<Rightarrow> vec list \<Rightarrow> vec \<Rightarrow> nat" where
  "assign k centroids emb = snd (fold (assign_step centroids emb) [0..<k] (PInf, 0))"

definition assign_all :: "nat \<Rightarrow> vec list \<Rightarrow> vec list \<Rightarrow> nat list" where
  "assign_all k centroids embeddings = map (assign k centroids) embeddings"

text \<open>\<^verbatim>\<open>newLabels.every((l, i) => l === labels[i])\<close>; both arrays have \<open>n\<close> entries.\<close>

definition same_labels :: "nat list \<Rightarrow> nat list \<Rightarrow> bool" where
  "same_labels newLabels labels =
     list_all (\<lambda>(l, i). i < length labels \<and> l = labels ! i)
              (zip newLabels [0..<length newLabels])"

text \<open>
  \<^verbatim>\<open>centroids[c][d] = v\<close> for \<open>d\<close> counting up from \<open>0\<close>: inside the row the entry
  is replaced, at its end the row grows by one (a row shorter than \<open>dim\<close> is met at
  \<open>d = length\<close> first, so no hole is ever created).
\<close>

definition set_at :: "vec \<Rightarrow> nat \<Rightarrow> jsnum \<Rightarrow> vec" where
  "set_at row d v = (if d < length row then row[d := v] else row @ [v])"

definition cluster_points :: "vec list \<Rightarrow> nat list \<Rightarrow> nat \<Rightarrow> vec list" where
  "cluster_points embeddings labels c =
     map fst (filter (\<lambda>(p, i). labels ! i = c) (zip embeddings [0..<length embeddings]))"

definition mean_at :: "vec list \<Rightarrow> nat \<Rightarrow> jsnum" where
  "mean_at clusterPoints d =
     js_div (foldl (\<lambda>sum p. js_add sum (js_get p d)) (Fin 0) clusterPoints)
            (Fin (real (length clusterPoints)))"

definition update_slot :: "vec list \<Rightarrow> nat \<Rightarrow> nat list \<Rightarrow> nat \<Rightarrow> vec list \<Rightarrow> vec list" where
  "update_slot embeddings dimn labels c centroids =
     (let clusterPoints = cluster_points embeddings labels c
      in if length clusterPoints = 0 then centroids
         else centroids[c := fold (\<lambda>d row. set_at row d (mean_at clusterPoints d))
                                  [0..<dimn] (centroids ! c)])"

definition update :: "vec list \<Rightarrow> nat \<Rightarrow> nat \<Rightarrow> nat list \<Rightarrow> vec list \<Rightarrow> vec list" where
  "update embeddings k dimn labels centroids =
     fold (update_slot embeddings dimn labels) [0..<k] centroids"

subsection \<open>The iteration and the whole function\<close>

record run =
  run_centroids :: "vec list"
  run_labels :: "nat list"
  passes :: nat
  converged :: bool
  history :: "nat list list"

text \<open>
  \<^verbatim>\<open>for (let iter = 0; iter < maxIterations; iter++)\<close>: the first argument counts
  the passes that remain. Three fields of the result are observations of the run, not
  data of the program: \<open>passes\<close> counts the Assign passes made, \<open>converged\<close> records
  that the loop left through \<^verbatim>\<open>break\<close>, and \<open>history\<close> lists the \<^verbatim>\<open>newLabels\<close>
  of every pass, in order.
\<close>

fun iterate ::
  "nat \<Rightarrow> vec list \<Rightarrow> nat \<Rightarrow> nat \<Rightarrow> vec list \<Rightarrow> nat list \<Rightarrow> nat \<Rightarrow> nat list list \<Rightarrow> run" where
  "iterate 0 embeddings k dimn cs ls p h =
     \<lparr>run_centroids = cs, run_labels = ls, passes = p, converged = False, history = h\<rparr>"
| "iterate (Suc m) embeddings k dimn cs ls p h =
     (let newLabels = assign_all k cs embeddings
      in if same_labels newLabels ls
         then \<lparr>run_centroids = cs, run_labels = ls, passes = Suc p, converged = True,
               history = h @ [newLabels]\<rparr>
         else iterate m embeddings k dimn (update embeddings k dimn newLabels cs) newLabels
                (Suc p) (h @ [newLabels]))"

text \<open>
  \<^verbatim>\<open>kmeans(embeddings, k, maxIterations)\<close>. \<^verbatim>\<open>embeddings[0].length\<close> throws a
  TypeError on an empty array, and so does spreading \<^verbatim>\<open>embeddings[idx]\<close> for an index
  out of range.
\<close>

definition kmeans_run :: "rng \<Rightarrow> vec list \<Rightarrow> nat \<Rightarrow> nat \<Rightarrow> (error + run) option" where
  "kmeans_run rnd embeddings k maxIterations =
     (case embeddings of
        [] \<Rightarrow> Some (Inl TypeError)
      | e0 # _ \<Rightarrow>
          (let n = length embeddings;
               dimn = length e0;
               idx = \<lfloor>rnd 0 * real n\<rfloor>
           in if idx < 0 \<or> idx \<ge> int n then Some (Inl TypeError)
              else (case seed_loop rnd 1 embeddings k [embeddings ! nat idx] {nat idx} of
                      None \<Rightarrow> None
                    | Some (cs, t) \<Rightarrow>
                        Some (Inr (iterate maxIterations embeddings k dimn cs (replicate n 0) 0 [])))))"

definition kmeans :: "rng \<Rightarrow> vec list \<Rightarrow> nat \<Rightarrow> nat \<Rightarrow> (error + nat list) option" where
  "kmeans rnd embeddings k maxIterations =
     map_option (map_sum id run_labels) (kmeans_run rnd embeddings k maxIterations)"

text \<open>A valid embedding set: finite numbers, one dimension for the whole batch.\<close>

definition valid_embeddings :: "vec list \<Rightarrow> bool" where
  "valid_embeddings embeddings =
     (\<forall>e \<in> set embeddings. length e = length (hd embeddings) \<and> (\<forall>x \<in> set e. is_fin x))"

text \<open>Auxiliary predicates for the proofs: a finite non-negative number, a finite vector
  of a given length, and the labels an Assign pass started from (the initial zeros, or the
  result of the pass before).\<close>

definition fin_nonneg :: "jsnum \<Rightarrow> bool" where
  "fin_nonneg x = (is_fin x \<and> 0 \<le> val x)"

definition fin_vec :: "nat \<Rightarrow> vec \<Rightarrow> bool" where
  "fin_vec d v = (length v = d \<and> (\<forall>x \<in> set v. is_fin x))"


text \<open>
  The Assign step in the words of the specification: slot \<open>c\<close> holds a centroid nearest
  to the sample, and no slot before \<open>c\<close> holds one as near (ties go to the lowest index).
\<close>

definition nearest :: "nat \<Rightarrow> vec list \<Rightarrow> vec \<Rightarrow> nat \<Rightarrow> bool" where
  "nearest k cs emb c =
     (c < k \<and>
      (\<forall>c' < k. js_le (euclideanDistance emb (cs ! c)) (euclideanDistance emb (cs ! c'))) \<and>
      (\<forall>c' < c. js_lt (euclideanDistance emb (cs ! c)) (euclideanDistance emb (cs ! c'))))"

section \<open>Neighbor Index and Spatializer\<close>

subsection \<open>Sorting with a comparator\<close>

text \<open>
  \<^verbatim>\<open>Array.prototype.sort(cmp)\<close> is stable: \<open>a\<close> moves behind \<open>b\<close> only where
  \<open>cmp(a, b) > 0\<close>, and a comparator result of \<open>NaN\<close> counts as \<open>0\<close>. The model is the
  stable insertion sort. For a comparator that is a consistent ordering every stable
  sort returns this list; for an inconsistent one (a \<open>NaN\<close> among the keys) the language
  leaves the order to the implementation.
\<close>

definition js_gt0 :: "jsnum \<Rightarrow> bool" where
  "js_gt0 v = js_lt (Fin 0) v"

fun js_insert :: "('a \<Rightarrow> 'a \<Rightarrow> jsnum) \<Rightarrow> 'a \<Rightarrow> 'a list \<Rightarrow> 'a list" where
  "js_insert cmp x [] = [x]"
| "js_insert cmp x (y # ys) =
     (if js_gt0 (cmp x y) then y # js_insert cmp x ys else x # y # ys)"

definition js_sort :: "('a \<Rightarrow> 'a \<Rightarrow> jsnum) \<Rightarrow> 'a list \<Rightarrow> 'a list" where
  "js_sort cmp xs = foldr (js_insert cmp) xs []"

subsection \<open>Neighbor Index\<close>

text \<open>
  The distance matrix of \<^verbatim>\<open>umap\<close>, computed in place over \<open>dim = embeddings[0].length\<close>
  coordinates:
  \<^verbatim>\<open>if (i === j) { distances[i][j] = 0; }
  else { let sum = 0;
         for (let d = 0; d < dim; d++) sum += Math.pow(embeddings[i][d] - embeddings[j][d], 2);
         distances[i][j] = Math.sqrt(sum); }\<close>
\<close>

definition pair_distance :: "vec list \<Rightarrow> nat \<Rightarrow> nat \<Rightarrow> nat \<Rightarrow> jsnum" where
  "pair_distance embeddings dimn i j =
     (if i = j then Fin 0
      else js_sqrt (fold (\<lambda>d sum. js_add sum
                            (js_pow2 (js_sub (js_get (embeddings ! i) d) (js_get (embeddings ! j) d))))
                         [0..<dimn] (Fin 0)))"

definition distance_row :: "vec list \<Rightarrow> nat \<Rightarrow> nat \<Rightarrow> jsnum list" where
  "distance_row embeddings dimn i =
     map (\<lambda>j. pair_distance embeddings dimn i j) [0..<length embeddings]"

text \<open>
  \<^verbatim>\<open>distances[i].map((d, j) => ({ j, d })).filter(x => x.j !== i)
     .sort((a, b) => a.d - b.d).slice(0, Math.min(nNeighbors, n - 1))\<close>
  An entry \<open>{j, d}\<close> is the pair \<open>(j, d)\<close>.
\<close>

definition knn_row :: "nat \<Rightarrow> nat \<Rightarrow> nat \<Rightarrow> jsnum list \<Rightarrow> (nat \<times> jsnum) list" where
  "knn_row n nNeighbors i row =
     take (min nNeighbors (n - 1))
       (js_sort (\<lambda>a b. js_sub (snd a) (snd b))
          (filter (\<lambda>x. fst x \<noteq> i) (zip [0..<length row] row)))"

definition knn_of :: "vec list \<Rightarrow> nat \<Rightarrow> nat \<Rightarrow> (nat \<times> jsnum) list list" where
  "knn_of embeddings dimn nNeighbors =
     map (\<lambda>i. knn_row (length embeddings) nNeighbors i (distance_row embeddings dimn i))
         [0..<length embeddings]"

subsection \<open>Spatializer\<close>

text \<open>
  \<^verbatim>\<open>embeddings.map(() => Array(nComponents).fill(0).map(() => (Math.random() - 0.5) * 10))\<close>:
  sample \<open>i\<close> reads the random numbers \<open>i * nComponents\<close> and following.
\<close>

definition init_positions :: "rng \<Rightarrow> nat \<Rightarrow> nat \<Rightarrow> vec list" where
  "init_positions rnd n nComponents =
     map (\<lambda>i. map (\<lambda>c. js_mul (js_sub (Fin (rnd (i * nComponents + c))) (Fin (1/2))) (Fin 10))
                [0..<nComponents])
         [0..<n]"

text \<open>
  \<^verbatim>\<open>const dx = positions[j][0] - positions[i][0];
  const dy = positions[j][1] - positions[i][1];
  const dist = Math.sqrt(dx * dx + dy * dy) + 0.001;\<close>
\<close>

definition delta :: "vec \<Rightarrow> vec \<Rightarrow> nat \<Rightarrow> jsnum" where
  "delta p_j p_i c = js_sub (js_get p_j c) (js_get p_i c)"

definition floor_dist :: "jsnum \<Rightarrow> jsnum \<Rightarrow> jsnum" where
  "floor_dist dx dy = js_add (js_sqrt (js_add (js_mul dx dx) (js_mul dy dy))) (Fin (1/1000))"

text \<open>\<^verbatim>\<open>forces[i][0] += fx; forces[i][1] += fy;\<close> on the row \<open>forces[i]\<close>.\<close>

definition add_force :: "vec \<Rightarrow> jsnum \<Rightarrow> jsnum \<Rightarrow> vec" where
  "add_force f fx fy =
     (let f1 = set_at f 0 (js_add (js_get f 0) fx)
      in set_at f1 1 (js_add (js_get f1 1) fy))"

text \<open>
  Attraction along one neighbor edge \<open>i \<rightarrow> j\<close>:
  \<^verbatim>\<open>const attraction = 0.1 * Math.log(dist + 1);
  forces[i][0] += attraction * dx / dist;
  forces[i][1] += attraction * dy / dist;\<close>
\<close>

definition attract :: "vec list \<Rightarrow> nat \<Rightarrow> nat \<Rightarrow> vec \<Rightarrow> vec" where
  "attract positions i j f =
     (let dx = delta (positions ! j) (positions ! i) 0;
          dy = delta (positions ! j) (positions ! i) 1;
          dist = floor_dist dx dy;
          attraction = js_mul (Fin (1/10)) (js_log (js_add dist (Fin 1)))
      in add_force f (js_div (js_mul attraction dx) dist) (js_div (js_mul attraction dy) dist))"

text \<open>
  Repulsion from one sampled \<open>j = Math.floor(Math.random() * n)\<close>, where \<open>u\<close> is the
  random number read (in \<open>[0, 1)\<close>, so that \<open>j < n\<close>):
  \<^verbatim>\<open>if (i === j) continue;
  ...
  if (dist < 2) {
    const repulsion = -0.5 / (dist * dist);
    forces[i][0] += repulsion * dx / dist;
    forces[i][1] += repulsion * dy / dist;
  }\<close>
\<close>

definition repel :: "vec list \<Rightarrow> nat \<Rightarrow> nat \<Rightarrow> real \<Rightarrow> vec \<Rightarrow> vec" where
  "repel positions n i u f =
     (let j = nat \<lfloor>u * real n\<rfloor>
      in if i = j then f
         else (let dx = delta (positions ! j) (positions ! i) 0;
                   dy = delta (positions ! j) (positions ! i) 1;
                   dist = floor_dist dx dy
               in if js_lt dist (Fin 2)
                  then (let repulsion = js_div (Fin (- (1/2))) (js_mul dist dist)
                        in add_force f (js_div (js_mul repulsion dx) dist)
                                       (js_div (js_mul repulsion dy) dist))
                  else f))"

text \<open>
  \<^verbatim>\<open>positions[i][0] += forces[i][0] * decay; positions[i][1] += forces[i][1] * decay;\<close>
\<close>

definition integrate :: "vec \<Rightarrow> vec \<Rightarrow> jsnum \<Rightarrow> vec" where
  "integrate p f decay =
     (let p1 = set_at p 0 (js_add (js_get p 0) (js_mul (js_get f 0) decay))
      in set_at p1 1 (js_add (js_get p1 1) (js_mul (js_get f 1) decay)))"

text \<open>
  One pass of the 200. The forces of sample \<open>i\<close> depend on the positions, which the pass
  changes only at its end, and on row \<open>i\<close> of the forces: first the attraction along
  \<open>knn[i]\<close>, then the repulsion from \<open>sampleSize\<close> sampled points. Every sampled point
  costs one random number, read or not used: pass \<open>iter\<close> reads the stream from
  \<open>t\<close> on, sample \<open>i\<close> from \<open>t + i * sampleSize\<close> on.
\<close>

definition umap_pass ::
  "rng \<Rightarrow> nat \<Rightarrow> nat \<Rightarrow> (nat \<times> jsnum) list list \<Rightarrow> nat \<Rightarrow> vec list \<Rightarrow> vec list" where
  "umap_pass rnd t nComponents knn iter positions =
     (let n = length positions;
          forces = map (\<lambda>p. replicate nComponents (Fin 0)) positions;
          attracted = map (\<lambda>i. fold (\<lambda>(j, d) f. attract positions i j f) (knn ! i) (forces ! i))
                          [0..<n];
          sampleSize = min 30 n;
          repelled = map (\<lambda>i. fold (\<lambda>s f. repel positions n i (rnd (t + i * sampleSize + s)) f)
                                    [0..<sampleSize] (attracted ! i))
                         [0..<n];
          decay = Fin (1 - real iter / 200)
      in map (\<lambda>i. integrate (positions ! i) (repelled ! i) decay) [0..<n])"

text \<open>
  \<^verbatim>\<open>umap(embeddings, nComponents, nNeighbors)\<close>; \<^verbatim>\<open>embeddings[0].length\<close> throws a
  TypeError on an empty array. The only call of the function passes \<open>nComponents = 2\<close>.
\<close>

definition umap :: "rng \<Rightarrow> vec list \<Rightarrow> nat \<Rightarrow> nat \<Rightarrow> error + vec list" where
  "umap rnd embeddings nComponents nNeighbors =
     (case embeddings of
        [] \<Rightarrow> Inl TypeError
      | e0 # _ \<Rightarrow>
          (let n = length embeddings;
               dimn = length e0;
               positions = init_positions rnd n nComponents;
               knn = knn_of embeddings dimn nNeighbors;
               sampleSize = min 30 n
           in Inr (fold (\<lambda>iter ps. umap_pass rnd (n * nComponents + iter * (n * sampleSize))
                                       nComponents knn iter ps)
                        [0..<200] positions)))"

section \<open>Label Synthesizer\<close>

text \<open>
  \<^verbatim>\<open>labelClusters(messages, labels)\<close>. A text is a string of 8-bit characters, a message
  is its text. The function stands twice in the repository, in \<^verbatim>\<open>src/app.js\<close> and in an
  older copy; the two differ in the stopword set, in the suffix of a one-word label and
  in the prefix of the fallback label, which are parameters here.
\<close>

subsection \<open>Grouping\<close>

text \<open>
  \<^verbatim>\<open>const cluster = labels[i];
  if (!clusterTexts[cluster]) clusterTexts[cluster] = [];
  clusterTexts[cluster].push(messages[i].text);\<close>
  The key of a group is the cluster slot, or \<^verbatim>\<open>undefined\<close> where \<open>labels\<close> is shorter
  than \<open>messages\<close>.
\<close>

datatype slot = Slot nat | Undefined

definition slot_at :: "nat list \<Rightarrow> nat \<Rightarrow> slot" where
  "slot_at labels i = (if i < length labels then Slot (labels ! i) else Undefined)"

definition push_text :: "string list \<Rightarrow> nat list \<Rightarrow> nat \<Rightarrow> (slot \<rightharpoonup> string list) \<Rightarrow> (slot \<rightharpoonup> string list)" where
  "push_text messages labels i clusterTexts =
     (let cluster = slot_at labels i
      in clusterTexts(cluster \<mapsto>
           (case clusterTexts cluster of None \<Rightarrow> [] | Some texts \<Rightarrow> texts) @ [messages ! i]))"

definition group_texts :: "string list \<Rightarrow> nat list \<Rightarrow> (slot \<rightharpoonup> string list)" where
  "group_texts messages labels =
     fold (push_text messages labels) [0..<length messages] Map.empty"

subsection \<open>Words of a text\<close>

text \<open>
  \<^verbatim>\<open>text.toLowerCase().replace(/[^a-z0-9\s]/g, ' ').split(/\s+/)
      .filter(w => w.length > 2 && !stopwords.has(w))\<close>
  \<^verbatim>\<open>toLowerCase\<close> is modelled on the letters A to Z. It maps every other 8-bit
  character to a character that is again neither a letter a to z, a digit nor white
  space, and the replacement turns both into a space.
\<close>

definition lower_char :: "char \<Rightarrow> char" where
  "lower_char c =
     (case map_of (zip ''ABCDEFGHIJKLMNOPQRSTUVWXYZ'' ''abcdefghijklmnopqrstuvwxyz'') c of
        None \<Rightarrow> c
      | Some l \<Rightarrow> l)"

definition upper_char :: "char \<Rightarrow> char" where
  "upper_char c =
     (case map_of (zip ''abcdefghijklmnopqrstuvwxyz'' ''ABCDEFGHIJKLMNOPQRSTUVWXYZ'') c of
        None \<Rightarrow> c
      | Some u \<Rightarrow> u)"

definition is_alnum :: "char \<Rightarrow> bool" where
  "is_alnum c = (c \<in> set ''abcdefghijklmnopqrstuvwxyz0123456789'')"

text \<open>The class \<^verbatim>\<open>\s\<close> among the 8-bit characters: tab, line feed, vertical tab, form
  feed, carriage return, space and the no-break space.\<close>

definition is_space :: "char \<Rightarrow> bool" where
  "is_space c = (c \<in> {CHR 0x09, CHR 0x0A, CHR 0x0B, CHR 0x0C, CHR 0x0D, CHR 0x20, CHR 0xA0})"

definition replace_other :: "string \<Rightarrow> string" where
  "replace_other s = map (\<lambda>c. if is_alnum c \<or> is_space c then c else CHR 0x20) s"

text \<open>
  \<^verbatim>\<open>s.split(/\s+/)\<close>: the pieces between the maximal runs of white space, the empty
  piece before a leading run and after a trailing one included. The flag says that the
  character before was white space, \<open>cur\<close> is the piece being read.
\<close>

fun split_ws :: "bool \<Rightarrow> string \<Rightarrow> string \<Rightarrow> string list" where
  "split_ws inrun cur [] = [cur]"
| "split_ws inrun cur (c # cs) =
     (if is_space c then (if inrun then split_ws True cur cs else cur # split_ws True [] cs)
      else split_ws False (cur @ [c]) cs)"

definition text_words :: "string list \<Rightarrow> string \<Rightarrow> string list" where
  "text_words stop txt =
     filter (\<lambda>w. length w > 2 \<and> w \<notin> set stop)
       (split_ws False [] (replace_other (map lower_char txt)))"

subsection \<open>Counting\<close>

text \<open>
  \<^verbatim>\<open>words[word] = (words[word] || 0) + 1\<close> on the object \<^verbatim>\<open>words = {}\<close>. The object is
  the list of its own properties in the order of their creation. A value is a count,
  with one exception: \<^verbatim>\<open>words["constructor"]\<close> is found on the prototype, a function,
  so that the word \<^verbatim>\<open>constructor\<close> is given a string (the function's text followed by a
  \<open>1\<close> for every occurrence), which is no number. No other name of
  \<^verbatim>\<open>Object.prototype\<close> can be a word: they hold capital letters or underscores.
\<close>

datatype count = Count nat | Text

fun bump :: "(string \<times> count) list \<Rightarrow> string \<Rightarrow> (string \<times> count) list" where
  "bump [] w = [(w, if w = ''constructor'' then Text else Count 1)]"
| "bump ((k, v) # ws) w =
     (if k = w then (k, case v of Count n \<Rightarrow> Count (Suc n) | Text \<Rightarrow> Text) # ws
      else (k, v) # bump ws w)"

definition count_words :: "string list \<Rightarrow> string list \<Rightarrow> (string \<times> count) list" where
  "count_words stop texts =
     fold (\<lambda>txt words. fold (\<lambda>word words. bump words word) (text_words stop txt) words) texts []"

subsection \<open>The order of \<^verbatim>\<open>Object.entries\<close>\<close>

text \<open>
  \<^verbatim>\<open>Object.entries(words)\<close> lists first the keys that are array indices (the decimal
  numerals, without a leading zero, of the numbers below \<open>2\<^sup>3\<^sup>2 - 1\<close>) by ascending
  value, then every other key in the order of creation.
\<close>

definition is_digit :: "char \<Rightarrow> bool" where
  "is_digit c = (c \<in> set ''0123456789'')"

definition digit_value :: "char \<Rightarrow> nat" where
  "digit_value c = (case map_of (zip ''0123456789'' [0..<10]) c of None \<Rightarrow> 0 | Some d \<Rightarrow> d)"

definition index_value :: "string \<Rightarrow> nat" where
  "index_value w = foldl (\<lambda>n c. 10 * n + digit_value c) 0 w"

definition is_array_index :: "string \<Rightarrow> bool" where
  "is_array_index w =
     (w \<noteq> [] \<and> list_all is_digit w \<and> (w = ''0'' \<or> hd w \<noteq> CHR ''0'') \<and>
      index_value w < 4294967295)"

definition entries :: "(string \<times> 'v) list \<Rightarrow> (string \<times> 'v) list" where
  "entries obj =
     sort_key (\<lambda>e. index_value (fst e)) (filter (\<lambda>e. is_array_index (fst e)) obj) @
     filter (\<lambda>e. \<not> is_array_index (fst e)) obj"

subsection \<open>The label\<close>

text \<open>
  \<^verbatim>\<open>Object.entries(words).sort((a, b) => b[1] - a[1]).slice(0, 3).map(([word]) => word)\<close>;
  the subtraction turns a value that is no number into \<open>NaN\<close>.
\<close>

fun count_number :: "count \<Rightarrow> jsnum" where
  "count_number (Count n) = Fin (real n)"
| "count_number Text = NaN"

definition top_words :: "(string \<times> count) list \<Rightarrow> string list" where
  "top_words words =
     map fst (take 3 (js_sort (\<lambda>a b. js_sub (count_number (snd b)) (count_number (snd a)))
                              (entries words)))"

text \<open>\<^verbatim>\<open>w.charAt(0).toUpperCase() + w.slice(1)\<close>, on a word of letters a to z and digits.\<close>

definition capitalize :: "string \<Rightarrow> string" where
  "capitalize w = (case w of [] \<Rightarrow> [] | c # cs \<Rightarrow> upper_char c # cs)"

text \<open>The decimal numeral of a number, and \<^verbatim>\<open>parseInt(cluster) + 1\<close> in a template.\<close>

fun decimal :: "nat \<Rightarrow> string" where
  "decimal n =
     (if n < 10 then [''0123456789'' ! n]
      else decimal (n div 10) @ [''0123456789'' ! (n mod 10)])"

fun slot_number :: "slot \<Rightarrow> string" where
  "slot_number (Slot n) = decimal (n + 1)"
| "slot_number Undefined = ''NaN''"

text \<open>
  \<^verbatim>\<open>if (sorted.length >= 2) label = sorted.slice(0, 2).map(cap).join(' & ');
  else if (sorted.length === 1) label = cap(sorted[0]) + suffix;
  else label = prefix + (parseInt(cluster) + 1);\<close>
\<close>

definition make_label :: "string \<Rightarrow> string \<Rightarrow> slot \<Rightarrow> string list \<Rightarrow> string" where
  "make_label suffix pre cluster srt =
     (if length srt \<ge> 2 then capitalize (srt ! 0) @ '' & '' @ capitalize (srt ! 1)
      else if length srt = 1 then capitalize (srt ! 0) @ suffix
      else pre @ slot_number cluster)"

definition cluster_label :: "string list \<Rightarrow> string \<Rightarrow> string \<Rightarrow> slot \<Rightarrow> string list \<Rightarrow> string" where
  "cluster_label stop suffix prefix cluster texts =
     make_label suffix prefix cluster (top_words (count_words stop texts))"

text \<open>
  \<^verbatim>\<open>for (const cluster in clusterTexts)\<close> gives every key of \<open>clusterTexts\<close> its label,
  each from its own texts; the result \<open>clusterLabels\<close> has these keys and no other.
\<close>

definition labelClusters_with ::
  "string list \<Rightarrow> string \<Rightarrow> string \<Rightarrow> string list \<Rightarrow> nat list \<Rightarrow> (slot \<rightharpoonup> string)" where
  "labelClusters_with stop suffix prefix messages labels =
     (\<lambda>cluster. map_option (cluster_label stop suffix prefix cluster)
                  (group_texts messages labels cluster))"

text \<open>The stopwords of \<^verbatim>\<open>src/app.js\<close>.\<close>

definition stopwords :: "string list" where
  "stopwords =
   [
    ''the'', ''a'', ''an'', ''is'', ''are'', ''was'', ''were'', ''be'', ''been'',
     ''being'', ''have'', ''has'', ''had'', ''do'', ''does'', ''did'', ''will'', ''would'',
     ''could'', ''should'', ''may'', ''might'', ''must'', ''shall'', ''can'', ''need'',
     ''to'', ''of'', ''in'', ''for'', ''on'', ''with'', ''at'', ''by'', ''from'', ''as'',
     ''into'', ''through'', ''during'', ''before'', ''after'', ''above'', ''below'',
     ''between'', ''under'', ''again'', ''further'', ''then'', ''once'', ''here'',
     ''there'', ''when'', ''where'', ''why'', ''how'', ''all'', ''each'', ''few'',
     ''more'', ''most'', ''other'', ''some'', ''such'', ''no'', ''nor'', ''not'', ''only'',
     ''own'', ''same'', ''so'', ''than'', ''too'', ''very'', ''just'', ''and'', ''but'',
     ''if'', ''or'', ''because'', ''until'', ''while'', ''this'', ''that'', ''these'',
     ''those'', ''what'', ''which'', ''who'', ''whom'', ''whose'', ''it'', ''its'', ''i'',
     ''me'', ''my'', ''myself'', ''we'', ''our'', ''ours'', ''you'', ''your'', ''yours'',
     ''he'', ''him'', ''his'', ''she'', ''her'', ''hers'', ''they'', ''them'', ''their'',
     ''am'', ''about'', ''get'', ''like'', ''make'', ''know'', ''think'', ''want'',
     ''see'', ''look'', ''use'', ''find'', ''give'', ''tell'', ''try'', ''help'',
     ''please'', ''thank'', ''thanks'', ''hi'', ''hello'', ''hey'', ''yes'', ''yeah'',
     ''ok'', ''okay'', ''sure'', ''right'', ''using'', ''need'', ''want'', ''something'',
     ''anything'', ''everything''
   ]"

text \<open>The stopwords of the older copy.\<close>

definition stopwords_old :: "string list" where
  "stopwords_old =
   [
    ''the'', ''a'', ''an'', ''is'', ''are'', ''was'', ''were'', ''be'', ''been'',
     ''being'', ''have'', ''has'', ''had'', ''do'', ''does'', ''did'', ''will'', ''would'',
     ''could'', ''should'', ''may'', ''might'', ''must'', ''shall'', ''can'', ''need'',
     ''dare'', ''ought'', ''used'', ''to'', ''of'', ''in'', ''for'', ''on'', ''with'',
     ''at'', ''by'', ''from'', ''as'', ''into'', ''through'', ''during'', ''before'',
     ''after'', ''above'', ''below'', ''between'', ''under'', ''again'', ''further'',
     ''then'', ''once'', ''here'', ''there'', ''when'', ''where'', ''why'', ''how'',
     ''all'', ''each'', ''few'', ''more'', ''most'', ''other'', ''some'', ''such'', ''no'',
     ''nor'', ''not'', ''only'', ''own'', ''same'', ''so'', ''than'', ''too'', ''very'',
     ''just'', ''and'', ''but'', ''if'', ''or'', ''because'', ''until'', ''while'',
     ''this'', ''that'', ''these'', ''those'', ''what'', ''which'', ''who'', ''whom'',
     ''whose'', ''it'', ''its'', ''i'', ''me'', ''my'', ''myself'', ''we'', ''our'',
     ''ours'', ''ourselves'', ''you'', ''your'', ''yours'', ''yourself'', ''yourselves'',
     ''he'', ''him'', ''his'', ''himself'', ''she'', ''her'', ''hers'', ''herself'',
     ''they'', ''them'', ''their'', ''theirs'', ''themselves'', ''am'', ''about'', ''get'',
     ''like'', ''make'', ''know'', ''think'', ''want'', ''see'', ''look'', ''use'',
     ''find'', ''give'', ''tell'', ''try'', ''leave'', ''call'', ''keep'', ''let'',
     ''begin'', ''seem'', ''help'', ''show'', ''hear'', ''play'', ''run'', ''move'',
     ''live'', ''believe'', ''hold'', ''bring'', ''happen'', ''write'', ''provide'',
     ''sit'', ''stand'', ''lose'', ''pay'', ''meet'', ''include'', ''continue'', ''set'',
     ''learn'', ''change'', ''lead'', ''understand'', ''watch'', ''follow'', ''stop'',
     ''create'', ''speak'', ''read'', ''spend'', ''grow'', ''open'', ''walk'', ''win'',
     ''offer'', ''remember'', ''love'', ''consider'', ''appear'', ''buy'', ''wait'',
     ''serve'', ''die'', ''send'', ''expect'', ''build'', ''stay'', ''fall'', ''cut'',
     ''reach'', ''kill'', ''remain'', ''suggest'', ''raise'', ''pass'', ''sell'',
     ''require'', ''report'', ''decide'', ''pull'', ''please'', ''thank'', ''thanks'',
     ''hi'', ''hello'', ''hey'', ''yes'', ''yeah'', ''ok'', ''okay'', ''sure'', ''right''
   ]"

definition labelClusters :: "string list \<Rightarrow> nat list \<Rightarrow> (slot \<rightharpoonup> string)" where
  "labelClusters = labelClusters_with stopwords [] ''Topic ''"

definition labelClusters_old :: "string list \<Rightarrow> nat list \<Rightarrow> (slot \<rightharpoonup> string)" where
  "labelClusters_old = labelClusters_with stopwords_old '' Topics'' ''Cluster ''"

subsection \<open>The label rule in the words of the specification\<close>

text \<open>
  The specification counts the frequency of every surviving token within the group and
  takes the most frequent ones, ties broken by first-encountered order. The tokens of a
  group are the words of its texts, in order; \<open>first_seen\<close> lists the distinct tokens in
  the order of their first occurrence and \<open>word_counts\<close> pairs each with its frequency.
\<close>

definition group_tokens :: "string list \<Rightarrow> string list \<Rightarrow> string list" where
  "group_tokens stop texts = concat (map (text_words stop) texts)"

definition first_seen :: "string list \<Rightarrow> string list" where
  "first_seen toks = fold (\<lambda>w seen. if w \<in> set seen then seen else seen @ [w]) toks []"

definition word_counts :: "string list \<Rightarrow> (string \<times> nat) list" where
  "word_counts toks = map (\<lambda>w. (w, count_list toks w)) (first_seen toks)"

text \<open>The entry of greatest count; among several, the one that stands first.\<close>

fun first_max :: "(string \<times> nat) list \<Rightarrow> (string \<times> nat) option" where
  "first_max [] = None"
| "first_max (e # es) =
     (case first_max es of
        None \<Rightarrow> Some e
      | Some m \<Rightarrow> if snd e < snd m then Some m else Some e)"

definition top_two :: "(string \<times> nat) list \<Rightarrow> string list" where
  "top_two es =
     (case first_max es of
        None \<Rightarrow> []
      | Some a \<Rightarrow>
          (case first_max (remove1 a es) of
             None \<Rightarrow> [fst a]
           | Some b \<Rightarrow> [fst a, fst b]))"

text \<open>
  The label rule: two most frequent tokens joined by \<open>" & "\<close>, one token (with the
  suffix), or the positional fallback. The order in which equally frequent tokens are
  ranked is the order of the list of counts; \<open>ranking\<close> arranges that list.
  \<open>first_encountered\<close> is the arrangement the specification names.
\<close>

definition spec_label ::
  "((string \<times> nat) list \<Rightarrow> (string \<times> nat) list) \<Rightarrow> string \<Rightarrow> string \<Rightarrow> slot \<Rightarrow> string list \<Rightarrow> string" where
  "spec_label ranking suffix pre cluster toks =
     (case top_two (ranking (word_counts toks)) of
        [] \<Rightarrow> pre @ slot_number cluster
      | [a] \<Rightarrow> capitalize a @ suffix
      | a # b # _ \<Rightarrow> capitalize a @ '' & '' @ capitalize b)"

definition first_encountered :: "(string \<times> nat) list \<Rightarrow> (string \<times> nat) list" where
  "first_encountered es = es"

text \<open>Auxiliary functions for the proofs: an entry of the counting object whose value is a
  count, and the key of the sort by descending count.\<close>

definition counted :: "string \<times> nat \<Rightarrow> string \<times> count" where
  "counted e = (fst e, Count (snd e))"

definition neg_count :: "string \<times> nat \<Rightarrow> int" where
  "neg_count e = - int (snd e)"

section \<open>Properties of the Cluster Engine\<close>

subsection \<open>Finite distances; what the seeding returns\<close>

lemma is_fin_conv: "is_fin x \<longleftrightarrow> (\<exists>r. x = Fin r)"
  by (cases x) auto

lemma fin_nonneg_conv: "fin_nonneg x \<longleftrightarrow> (\<exists>r\<ge>0. x = Fin r)"
  by (cases x) (auto simp: fin_nonneg_def)

lemma fin_nonneg_add: "fin_nonneg x \<Longrightarrow> fin_nonneg y \<Longrightarrow> fin_nonneg (js_add x y)"
  by (auto simp: fin_nonneg_conv)

lemma fin_nonneg_pow2_sub: "is_fin x \<Longrightarrow> is_fin y \<Longrightarrow> fin_nonneg (js_pow2 (js_sub x y))"
  by (auto simp: fin_nonneg_conv is_fin_conv js_pow2_def js_sub_def)

lemma fin_nonneg_sqrt: "fin_nonneg x \<Longrightarrow> fin_nonneg (js_sqrt x)"
  by (auto simp: fin_nonneg_conv)

lemma fold_add_nonneg:
  "\<forall>i \<in> set xs. fin_nonneg (f i) \<Longrightarrow> fin_nonneg s \<Longrightarrow>
   fin_nonneg (fold (\<lambda>i sum. js_add sum (f i)) xs s)"
  by (induction xs arbitrary: s) (simp_all add: fin_nonneg_add)

lemma js_get_fin: "fin_vec d v \<Longrightarrow> i < d \<Longrightarrow> is_fin (js_get v i)"
  by (simp add: fin_vec_def js_get_def)

lemma euclideanDistance_nonneg:
  assumes "fin_vec d a" "fin_vec d b"
  shows "fin_nonneg (euclideanDistance a b)"
proof -
  have len: "length a = d" using assms(1) by (simp add: fin_vec_def)
  have "fin_nonneg (fold (\<lambda>i sum. js_add sum (js_pow2 (js_sub (js_get a i) (js_get b i))))
                   [0..<length a] (Fin 0))"
    by (rule fold_add_nonneg)
       (auto simp: len fin_nonneg_conv [of "Fin 0"] intro!: fin_nonneg_pow2_sub js_get_fin [OF assms(1)] js_get_fin [OF assms(2)])
  then show ?thesis
    unfolding euclideanDistance_def by (rule fin_nonneg_sqrt)
qed

lemma length_seed_distances [simp]:
  "length (seed_distances embeddings cs used) = length embeddings"
  by (simp add: seed_distances_def)

lemma pick_bound: "pick r ds i = Some j \<Longrightarrow> i \<le> j \<and> j < i + length ds"
proof (induction ds arbitrary: r i)
  case Nil
  then show ?case by simp
next
  case (Cons d ds)
  show ?case
  proof (cases "js_le (js_sub r d) (Fin 0)")
    case True
    with Cons.prems show ?thesis by simp
  next
    case False
    with Cons.prems have "pick (js_sub r d) ds (Suc i) = Some j" by simp
    from Cons.IH [OF this] show ?thesis by simp
  qed
qed

lemma seed_loop_result:
  assumes "seed_loop rnd t embeddings k cs used = Some y"
  shows "length (fst y) = max k (length cs) \<and> set (fst y) \<subseteq> set cs \<union> set embeddings"
proof (rule seed_loop.raw_induct
    [where P = "\<lambda>rnd t embeddings k cs used y.
       length (fst y) = max k (length cs) \<and> set (fst y) \<subseteq> set cs \<union> set embeddings",
     OF _ assms])
  fix loop :: "rng \<Rightarrow> nat \<Rightarrow> vec list \<Rightarrow> nat \<Rightarrow> vec list \<Rightarrow> nat set \<Rightarrow> (vec list \<times> nat) option"
  fix rnd t embeddings k cs used y
  assume IH: "\<And>rnd t embeddings k cs used y. loop rnd t embeddings k cs used = Some y \<Longrightarrow>
      length (fst y) = max k (length cs) \<and> set (fst y) \<subseteq> set cs \<union> set embeddings"
  assume body: "(if length cs < k
      then let distances = seed_distances embeddings cs used;
               totalDist = foldl js_add (Fin 0) distances;
               r = js_mul (Fin (rnd t)) totalDist
           in case pick r distances 0 of
                None \<Rightarrow> loop rnd (Suc t) embeddings k cs used
              | Some i \<Rightarrow> loop rnd (Suc t) embeddings k (cs @ [embeddings ! i]) (insert i used)
      else Some (cs, t)) = Some y"
  show "length (fst y) = max k (length cs) \<and> set (fst y) \<subseteq> set cs \<union> set embeddings"
  proof (cases "length cs < k")
    case False
    with body show ?thesis by (auto simp: max_def)
  next
    case True
    let ?ds = "seed_distances embeddings cs used"
    let ?r = "js_mul (Fin (rnd t)) (foldl js_add (Fin 0) ?ds)"
    show ?thesis
    proof (cases "pick ?r ?ds 0")
      case None
      with True body have "loop rnd (Suc t) embeddings k cs used = Some y"
        by (simp add: Let_def)
      from IH [OF this] show ?thesis .
    next
      case (Some i)
      with True body
      have "loop rnd (Suc t) embeddings k (cs @ [embeddings ! i]) (insert i used) = Some y"
        by (simp add: Let_def)
      from IH [OF this]
      have r: "length (fst y) = max k (length (cs @ [embeddings ! i]))"
        "set (fst y) \<subseteq> set (cs @ [embeddings ! i]) \<union> set embeddings"
        by simp_all
      from pick_bound [OF Some] have "i < length embeddings" by simp
      then have "embeddings ! i \<in> set embeddings" by simp
      with r True show ?thesis by (auto simp: max_def)
    qed
  qed
qed

subsection \<open>Assign\<close>

lemma fold_assign_step_snd:
  "snd (fold (assign_step cs e) xs st) \<in> insert (snd st) (set xs)"
proof (induction xs arbitrary: st)
  case Nil
  then show ?case by simp
next
  case (Cons c xs)
  have "snd (assign_step cs e c st) \<in> {snd st, c}"
    by (simp add: assign_step_def Let_def)
  with Cons [of "assign_step cs e c st"] show ?case by auto
qed

lemma assign_less: "0 < k \<Longrightarrow> assign k cs e < k"
  using fold_assign_step_snd [of cs e "[0..<k]" "(PInf, 0)"]
  by (auto simp: assign_def)

lemma length_assign_all [simp]: "length (assign_all k cs embeddings) = length embeddings"
  by (simp add: assign_all_def)

lemma assign_all_less: "0 < k \<Longrightarrow> \<forall>l \<in> set (assign_all k cs embeddings). l < k"
  by (auto simp: assign_all_def assign_less)

lemma same_labels_eq:
  assumes "length newLabels = length ls"
  shows "same_labels newLabels ls \<longleftrightarrow> newLabels = ls"
proof
  assume "same_labels newLabels ls"
  then have "\<forall>i < length newLabels. newLabels ! i = ls ! i"
    by (fastforce simp: same_labels_def list_all_iff set_zip)
  with assms show "newLabels = ls" by (simp add: list_eq_iff_nth_eq)
next
  assume "newLabels = ls"
  then show "same_labels newLabels ls"
    by (auto simp: same_labels_def list_all_iff set_zip)
qed

subsection \<open>Update\<close>

lemma cluster_points_empty:
  "\<forall>i < length embeddings. ls ! i \<noteq> c \<Longrightarrow> cluster_points embeddings ls c = []"
  by (auto simp: cluster_points_def filter_empty_conv set_zip)

lemma update_slot_other:
  "c' \<noteq> c \<Longrightarrow> update_slot embeddings dimn ls c' cs ! c = cs ! c"
  by (simp add: update_slot_def Let_def)

lemma update_slot_empty:
  "cluster_points embeddings ls c = [] \<Longrightarrow> update_slot embeddings dimn ls c cs = cs"
  by (simp add: update_slot_def)

lemma fold_update_slot_empty:
  "cluster_points embeddings ls c = [] \<Longrightarrow>
   fold (update_slot embeddings dimn ls) xs cs ! c = cs ! c"
proof (induction xs arbitrary: cs)
  case Nil
  then show ?case by simp
next
  case (Cons c' xs)
  then show ?case
    by (cases "c' = c") (simp_all add: update_slot_other update_slot_empty)
qed

lemma length_update_slot [simp]:
  "length (update_slot embeddings dimn ls c cs) = length cs"
  by (simp add: update_slot_def Let_def)

lemma length_fold_update_slot:
  "length (fold (update_slot embeddings dimn ls) xs cs) = length cs"
  by (induction xs arbitrary: cs) simp_all

lemma length_update [simp]: "length (update embeddings k dimn ls cs) = length cs"
  by (simp add: update_def length_fold_update_slot)

subsection \<open>The iteration\<close>

lemma iterate_labels:
  "0 < k \<Longrightarrow> length ls = length embeddings \<Longrightarrow> \<forall>l \<in> set ls. l < k \<Longrightarrow>
   length (run_labels (iterate m embeddings k dimn cs ls p h)) = length embeddings \<and>
   (\<forall>l \<in> set (run_labels (iterate m embeddings k dimn cs ls p h)). l < k)"
proof (induction m arbitrary: cs ls p h)
  case 0
  then show ?case by simp
next
  case (Suc m)
  show ?case
  proof (cases "same_labels (assign_all k cs embeddings) ls")
    case True
    with Suc.prems show ?thesis by simp
  next
    case False
    with Suc.IH [of "assign_all k cs embeddings"] Suc.prems(1) show ?thesis
      by (simp add: assign_all_less Let_def)
  qed
qed

lemma iterate_fixed_point:
  "length ls = length embeddings \<Longrightarrow> converged (iterate m embeddings k dimn cs ls p h) \<Longrightarrow>
   assign_all k (run_centroids (iterate m embeddings k dimn cs ls p h)) embeddings =
   run_labels (iterate m embeddings k dimn cs ls p h)"
proof (induction m arbitrary: cs ls p h)
  case 0
  then show ?case by simp
next
  case (Suc m)
  show ?case
  proof (cases "same_labels (assign_all k cs embeddings) ls")
    case True
    with Suc.prems(1) show ?thesis by (simp add: same_labels_eq)
  next
    case False
    with Suc.IH [of "assign_all k cs embeddings"] Suc.prems(2) show ?thesis
      by (simp add: Let_def)
  qed
qed

lemma iterate_centroids_length:
  "length (run_centroids (iterate m embeddings k dimn cs ls p h)) = length cs"
  by (induction m arbitrary: cs ls p h) (simp_all add: Let_def)

lemma iterate_passes:
  "passes (iterate m embeddings k dimn cs ls p h) \<le> p + m \<and>
   (\<not> converged (iterate m embeddings k dimn cs ls p h) \<longrightarrow>
      passes (iterate m embeddings k dimn cs ls p h) = p + m)"
proof (induction m arbitrary: cs ls p h)
  case 0
  then show ?case by simp
next
  case (Suc m)
  show ?case using Suc [of _ _ "Suc p"] by (simp add: Let_def)
qed


subsection \<open>Centroids stay finite; Assign picks the nearest\<close>

lemma foldl_add_get_fin:
  "\<forall>p \<in> set pts. fin_vec dimn p \<Longrightarrow> d < dimn \<Longrightarrow>
   is_fin (foldl (\<lambda>sum p. js_add sum (js_get p d)) (Fin a) pts)"
proof (induction pts arbitrary: a)
  case Nil
  then show ?case by simp
next
  case (Cons p pts)
  then have "is_fin (js_get p d)" using js_get_fin [of dimn p d] by simp
  then obtain x where "js_get p d = Fin x" by (auto simp: is_fin_conv)
  with Cons show ?case by simp
qed

lemma mean_at_fin:
  assumes "pts \<noteq> []" "\<forall>p \<in> set pts. fin_vec dimn p" "d < dimn"
  shows "is_fin (mean_at pts d)"
proof -
  from foldl_add_get_fin [OF assms(2,3), of 0]
  obtain s where "foldl (\<lambda>sum p. js_add sum (js_get p d)) (Fin 0) pts = Fin s"
    by (auto simp: is_fin_conv)
  with assms(1) show ?thesis by (simp add: mean_at_def)
qed

lemma fold_set_at_fin:
  "fin_vec dimn row \<Longrightarrow> \<forall>d \<in> set xs. d < dimn \<and> is_fin (v d) \<Longrightarrow>
   fin_vec dimn (fold (\<lambda>d row. set_at row d (v d)) xs row)"
proof (induction xs arbitrary: row)
  case Nil
  then show ?case by simp
next
  case (Cons d xs)
  then have "fin_vec dimn (set_at row d (v d))"
    by (auto simp: fin_vec_def set_at_def dest!: set_update_subset_insert [THEN subsetD])
  with Cons show ?case by simp
qed

lemma cluster_points_subset: "set (cluster_points embeddings ls c) \<subseteq> set embeddings"
  by (auto simp: cluster_points_def dest: set_zip_leftD)

lemma update_slot_fin:
  assumes "\<forall>e \<in> set embeddings. fin_vec dimn e" "\<forall>x \<in> set cs. fin_vec dimn x"
  shows "\<forall>x \<in> set (update_slot embeddings dimn ls c cs). fin_vec dimn x"
proof (cases "cluster_points embeddings ls c = [] \<or> length cs \<le> c")
  case True
  then show ?thesis using assms(2) by (auto simp: update_slot_def Let_def list_update_beyond)
next
  case False
  let ?pts = "cluster_points embeddings ls c"
  have pts: "\<forall>p \<in> set ?pts. fin_vec dimn p"
    using assms(1) cluster_points_subset [of embeddings ls c] by auto
  have "fin_vec dimn (cs ! c)" using False assms(2) by simp
  then have "fin_vec dimn (fold (\<lambda>d row. set_at row d (mean_at ?pts d)) [0..<dimn] (cs ! c))"
    using False pts by (intro fold_set_at_fin) (auto intro: mean_at_fin)
  then show ?thesis
    using False assms(2)
    by (auto simp: update_slot_def Let_def dest!: set_update_subset_insert [THEN subsetD])
qed

lemma update_fin:
  assumes "\<forall>e \<in> set embeddings. fin_vec dimn e"
  shows "\<forall>x \<in> set cs. fin_vec dimn x \<Longrightarrow>
         \<forall>x \<in> set (fold (update_slot embeddings dimn ls) xs cs). fin_vec dimn x"
proof (induction xs arbitrary: cs)
  case Nil
  then show ?case by simp
next
  case (Cons c xs)
  from update_slot_fin [OF assms Cons.prems, of ls c] Cons.IH show ?case by simp
qed

lemma iterate_centroids_fin:
  assumes "\<forall>e \<in> set embeddings. fin_vec dimn e"
  shows "\<forall>x \<in> set cs. fin_vec dimn x \<Longrightarrow>
         \<forall>x \<in> set (run_centroids (iterate m embeddings k dimn cs ls p h)). fin_vec dimn x"
proof (induction m arbitrary: cs ls p h)
  case 0
  then show ?case by simp
next
  case (Suc m)
  have "\<forall>x \<in> set (update embeddings k dimn (assign_all k cs embeddings) cs). fin_vec dimn x"
    unfolding update_def using Suc.prems by (rule update_fin [OF assms])
  from Suc.IH [OF this] Suc.prems show ?case by (simp add: Let_def)
qed

lemma assign_fold_nearest:
  assumes "\<forall>c < k. fin_nonneg (euclideanDistance emb (cs ! c))" "0 < k"
  shows "snd (fold (assign_step cs emb) [0..<k] (PInf, 0)) < k \<and>
         fst (fold (assign_step cs emb) [0..<k] (PInf, 0)) =
           euclideanDistance emb (cs ! snd (fold (assign_step cs emb) [0..<k] (PInf, 0))) \<and>
         (\<forall>c < k. js_le (fst (fold (assign_step cs emb) [0..<k] (PInf, 0)))
                        (euclideanDistance emb (cs ! c))) \<and>
         (\<forall>c < snd (fold (assign_step cs emb) [0..<k] (PInf, 0)).
            js_lt (fst (fold (assign_step cs emb) [0..<k] (PInf, 0)))
                  (euclideanDistance emb (cs ! c)))"
  using assms
proof (induction k)
  case 0
  then show ?case by simp
next
  case (Suc k)
  let ?D = "\<lambda>c. euclideanDistance emb (cs ! c)"
  from Suc.prems obtain x where x: "?D k = Fin x" by (auto simp: fin_nonneg_conv)
  show ?case
  proof (cases "k = 0")
    case True
    with x show ?thesis by (simp add: assign_step_def Let_def)
  next
    case False
    let ?st = "fold (assign_step cs emb) [0..<k] (PInf, 0)"
    have pre: "\<forall>c < k. fin_nonneg (?D c)" using Suc.prems by simp
    have kpos: "0 < k" using False by simp
    from Suc.IH [OF pre kpos]
    have IH: "snd ?st < k" "fst ?st = ?D (snd ?st)" "\<forall>c < k. js_le (fst ?st) (?D c)"
      "\<forall>c < snd ?st. js_lt (fst ?st) (?D c)"
      by blast+
    have D: "\<forall>c < Suc k. \<exists>z. ?D c = Fin z" using Suc.prems by (auto simp: fin_nonneg_conv)
    from IH(1) have "snd ?st < Suc k" by simp
    with D obtain y where y: "?D (snd ?st) = Fin y" by blast
    have step: "fold (assign_step cs emb) [0..<Suc k] (PInf, 0) =
          (if x < y then (Fin x, k) else ?st)"
      using IH(2) by (simp add: assign_step_def Let_def x y)
    show ?thesis
    proof (cases "x < y")
      case True
      have "js_le (Fin x) (?D c)" if "c < Suc k" for c
      proof (cases "c = k")
        case True
        then show ?thesis by (simp add: x)
      next
        case False
        with that have c: "c < k" by simp
        with D obtain z where z: "?D c = Fin z" by force
        from IH(3) c have "js_le (Fin y) (Fin z)" by (simp add: IH(2) y z [symmetric])
        with \<open>x < y\<close> show ?thesis by (simp add: z)
      qed
      moreover have "js_lt (Fin x) (?D c)" if "c < k" for c
      proof -
        from D that obtain z where z: "?D c = Fin z" by force
        from IH(3) that have "js_le (Fin y) (Fin z)" by (simp add: IH(2) y z [symmetric])
        with \<open>x < y\<close> show ?thesis by (simp add: z)
      qed
      ultimately show ?thesis unfolding step using True by (simp add: x)
    next
      case False
      have "js_le (fst ?st) (?D c)" if "c < Suc k" for c
      proof (cases "c = k")
        case True
        with False show ?thesis by (simp add: IH(2) x y)
      next
        case False
        with that IH(3) show ?thesis by simp
      qed
      then show ?thesis unfolding step using False IH by simp
    qed
  qed
qed

lemma assign_nearest:
  assumes "\<forall>c < k. fin_nonneg (euclideanDistance emb (cs ! c))" "0 < k"
  shows "nearest k cs emb (assign k cs emb)"
  using assign_fold_nearest [OF assms]
  unfolding nearest_def assign_def by metis

lemma floor_index:
  assumes "0 \<le> u" "u < 1" "0 < n"
  shows "0 \<le> \<lfloor>u * real n\<rfloor> \<and> \<lfloor>u * real n\<rfloor> < int n"
proof -
  have "u * real n < real n" using assms by simp
  then have "\<lfloor>u * real n\<rfloor> < int n" by (simp add: floor_less_iff)
  moreover have "0 \<le> u * real n" using assms by simp
  ultimately show ?thesis by simp
qed

lemma valid_fin_vec:
  "valid_embeddings embeddings \<Longrightarrow> \<forall>e \<in> set embeddings. fin_vec (length (hd embeddings)) e"
  by (simp add: valid_embeddings_def fin_vec_def)

lemma kmeans_run_Inr:
  assumes "kmeans_run rnd embeddings k maxIterations = Some (Inr r)"
  shows "\<exists>cs t. embeddings \<noteq> [] \<and> nat \<lfloor>rnd 0 * real (length embeddings)\<rfloor> < length embeddings \<and>
           seed_loop rnd 1 embeddings k
             [embeddings ! nat \<lfloor>rnd 0 * real (length embeddings)\<rfloor>]
             {nat \<lfloor>rnd 0 * real (length embeddings)\<rfloor>} = Some (cs, t) \<and>
           r = iterate maxIterations embeddings k (length (hd embeddings)) cs
                 (replicate (length embeddings) 0) 0 []"
proof (cases embeddings)
  case Nil
  with assms show ?thesis by (simp add: kmeans_run_def)
next
  case (Cons e0 es)
  let ?idx = "\<lfloor>rnd 0 * real (length (e0 # es))\<rfloor>"
  from assms have idx: "\<not> (?idx < 0 \<or> int (length (e0 # es)) \<le> ?idx)"
    unfolding kmeans_run_def Cons list.case Let_def by (auto split: if_splits)
  then have lt: "nat ?idx < length (e0 # es)" by linarith
  from assms idx obtain cs t where
    "seed_loop rnd 1 (e0 # es) k [(e0 # es) ! nat ?idx] {nat ?idx} = Some (cs, t)"
    "r = iterate maxIterations (e0 # es) k (length e0) cs (replicate (length (e0 # es)) 0) 0 []"
    unfolding kmeans_run_def Cons list.case Let_def
    by (auto split: if_splits option.splits)
  with lt show ?thesis unfolding Cons by auto
qed

lemma kmeans_run_unit:
  assumes "unit_rng rnd" "embeddings \<noteq> []"
  shows "kmeans_run rnd embeddings k maxIterations =
     (case seed_loop rnd 1 embeddings k
             [embeddings ! nat \<lfloor>rnd 0 * real (length embeddings)\<rfloor>]
             {nat \<lfloor>rnd 0 * real (length embeddings)\<rfloor>} of
        None \<Rightarrow> None
      | Some (cs, t) \<Rightarrow>
          Some (Inr (iterate maxIterations embeddings k (length (hd embeddings)) cs
                       (replicate (length embeddings) 0) 0 [])))"
proof -
  obtain e0 es where e: "embeddings = e0 # es" using assms(2) by (cases embeddings) auto
  have "0 \<le> rnd 0" "rnd 0 < 1" using assms(1) by (simp_all add: unit_rng_def)
  from floor_index [OF this, of "length embeddings"] assms(2)
  have "\<not> (\<lfloor>rnd 0 * real (length (e0 # es))\<rfloor> < 0 \<or>
            int (length (e0 # es)) \<le> \<lfloor>rnd 0 * real (length (e0 # es))\<rfloor>)"
    unfolding e by auto
  then show ?thesis
    unfolding kmeans_run_def e list.case Let_def by (simp only: if_False list.sel)
qed

lemma iterate_labels_length:
  "length ls = length embeddings \<Longrightarrow>
   length (run_labels (iterate m embeddings k dimn cs ls p h)) = length embeddings"
  by (induction m arbitrary: cs ls p h) (simp_all add: Let_def)





lemma kmeans_Inr:
  assumes "kmeans rnd embeddings k maxIterations = Some (Inr ls)"
  shows "\<exists>r. kmeans_run rnd embeddings k maxIterations = Some (Inr r) \<and> ls = run_labels r"
proof (cases "kmeans_run rnd embeddings k maxIterations")
  case None
  with assms show ?thesis by (simp add: kmeans_def)
next
  case (Some x)
  with assms show ?thesis by (cases x) (simp_all add: kmeans_def)
qed

lemma kmeans_run_returned:
  assumes "unit_rng rnd" "embeddings \<noteq> []"
    "seed_loop rnd 1 embeddings k
       [embeddings ! nat \<lfloor>rnd 0 * real (length embeddings)\<rfloor>]
       {nat \<lfloor>rnd 0 * real (length embeddings)\<rfloor>} = Some (cs, t)"
  shows "kmeans_run rnd embeddings k maxIterations =
           Some (Inr (iterate maxIterations embeddings k (length (hd embeddings)) cs
                        (replicate (length embeddings) 0) 0 []))"
  unfolding kmeans_run_unit [OF assms(1,2)] assms(3) by simp

lemma kmeans_run_no_error:
  assumes "unit_rng rnd" "embeddings \<noteq> []"
  shows "kmeans_run rnd embeddings k maxIterations \<noteq> Some (Inl e)"
  unfolding kmeans_run_unit [OF assms]
  by (simp split: option.splits)
subsection \<open>A run with an empty cluster\<close>

text \<open>Three one-dimensional samples, two of them equal, three clusters, and a random
  source that always answers one half: the third centroid is seeded on a sample already
  used, and its slot stays empty.\<close>

lemma dist_00: "euclideanDistance [Fin 0] [Fin 0] = Fin 0"
  by (simp add: euclideanDistance_def js_get_def js_pow2_def js_sub_def)

lemma dist_01: "euclideanDistance [Fin 0] [Fin 1] = Fin 1"
  by (simp add: euclideanDistance_def js_get_def js_pow2_def js_sub_def)

lemma dist_10: "euclideanDistance [Fin 1] [Fin 0] = Fin 1"
  by (simp add: euclideanDistance_def js_get_def js_pow2_def js_sub_def)

lemma dist_11: "euclideanDistance [Fin 1] [Fin 1] = Fin 0"
  by (simp add: euclideanDistance_def js_get_def js_pow2_def js_sub_def)

lemma upt3: "[0..<3] = [0, 1, 2]" "[0..<2] = [0,1]" "[0..<1] = [0]"
  by (simp_all add: upt_rec)

lemma seed_ex:
  "seed_loop (const_rng (1/2)) 1 [[Fin 0], [Fin 0], [Fin 1]] 3 [[Fin 0]] {1}
     = Some ([[Fin 0], [Fin 1], [Fin 0]], 3)"
  apply (subst seed_loop.simps)
  apply (simp add: seed_distances_def js_min_def dist_00 dist_01 dist_10 dist_11 const_rng_def js_sub_def upt3)
  apply (subst seed_loop.simps)
  apply (simp add: seed_distances_def js_min_def dist_00 dist_01 dist_10 dist_11 const_rng_def js_sub_def upt3)
  apply (subst seed_loop.simps)
  apply (simp add: seed_distances_def js_min_def dist_00 dist_01 dist_10 dist_11 const_rng_def js_sub_def upt3)
  done

lemma assign_ex1: "assign_all 3 [[Fin 0], [Fin 1], [Fin 0]] [[Fin 0], [Fin 0], [Fin 1]] = [0, 0, 1]"
  by (simp add: assign_all_def assign_def assign_step_def upt3 dist_00 dist_01 dist_10 dist_11)

lemma update_ex:
  "update [[Fin 0], [Fin 0], [Fin 1]] 3 1 [0, 0, 1] [[Fin 0], [Fin 1], [Fin 0]]
     = [[Fin 0], [Fin 1], [Fin 0]]"
  by (simp add: update_def update_slot_def cluster_points_def mean_at_def set_at_def js_get_def upt3)

lemma iterate_unfold:
  "0 < m \<Longrightarrow> iterate m embeddings k dimn cs ls p h =
     (if same_labels (assign_all k cs embeddings) ls
      then \<lparr>run_centroids = cs, run_labels = ls, passes = Suc p, converged = True,
            history = h @ [assign_all k cs embeddings]\<rparr>
      else iterate (m - 1) embeddings k dimn
             (update embeddings k dimn (assign_all k cs embeddings) cs)
             (assign_all k cs embeddings) (Suc p) (h @ [assign_all k cs embeddings]))"
  by (cases m) (simp_all add: Let_def)

lemma kmeans_run_seeded:
  assumes "embeddings = e0 # es" "\<lfloor>rnd 0 * real (length embeddings)\<rfloor> = int i"
    "i < length embeddings"
    "seed_loop rnd 1 embeddings k [embeddings ! i] {i} = Some (cs, t)"
  shows "kmeans_run rnd embeddings k m =
           Some (Inr (iterate m embeddings k (length e0) cs (replicate (length embeddings) 0) 0 []))"
proof -
  have "\<not> (int i < 0 \<or> int (length embeddings) \<le> int i)" using assms(3) by simp
  with assms(4) show ?thesis
    unfolding kmeans_run_def assms(1) list.case Let_def
    unfolding assms(1) [symmetric] assms(2)
    by simp
qed


lemma iterate_ex:
  "iterate 50 [[Fin 0], [Fin 0], [Fin 1]] 3 1 [[Fin 0], [Fin 1], [Fin 0]] [0, 0, 0] 0 [] =
     \<lparr>run_centroids = [[Fin 0], [Fin 1], [Fin 0]], run_labels = [0, 0, 1], passes = 2,
      converged = True, history = [[0, 0, 1], [0, 0, 1]]\<rparr>"
  by (simp add: iterate_unfold assign_ex1 update_ex same_labels_def upt3
       del: One_nat_def split del: if_split)

lemma run_ex:
  "kmeans_run (const_rng (1/2)) [[Fin 0], [Fin 0], [Fin 1]] 3 50 =
     Some (Inr \<lparr>run_centroids = [[Fin 0], [Fin 1], [Fin 0]], run_labels = [0, 0, 1], passes = 2,
                converged = True, history = [[0, 0, 1], [0, 0, 1]]\<rparr>)"
proof -
  let ?X = "[[Fin 0], [Fin 0], [Fin 1]]"
  have a: "\<lfloor>const_rng (1/2) 0 * real (length ?X)\<rfloor> = int 1"
    by (simp add: const_rng_def floor_eq_iff)
  have b: "seed_loop (const_rng (1/2)) 1 ?X 3 [?X ! 1] {1} = Some ([[Fin 0], [Fin 1], [Fin 0]], 3)"
    using seed_ex by simp
  have c: "1 < length ?X" by simp
  have l1: "length [Fin 0] = 1" by simp
  have l3: "replicate (length ?X) 0 = [0, 0, 0::nat]" by (simp add: numeral_3_eq_3)
  have "kmeans_run (const_rng (1/2)) ?X 3 50 =
          Some (Inr (iterate 50 ?X 3 1 [[Fin 0], [Fin 1], [Fin 0]] [0, 0, 0] 0 []))"
    using kmeans_run_seeded [OF refl a c b, of 50] unfolding l1 l3 .
  then show ?thesis by (simp only: iterate_ex)
qed

subsection \<open>Inputs outside the contract\<close>

lemma js_add_NaN [simp]: "js_add x NaN = NaN"
  by (cases x) simp_all

lemma fold_add_NaN: "fold (\<lambda>i sum. js_add sum (f i)) xs NaN = NaN"
  by (induction xs) simp_all

lemma fold_add_NaN_term:
  "x \<in> set xs \<Longrightarrow> f x = NaN \<Longrightarrow> fold (\<lambda>i sum. js_add sum (f i)) xs s = NaN"
  by (induction xs arbitrary: s) (auto simp: fold_add_NaN)

lemma euclideanDistance_short:
  assumes "length b < length a"
  shows "euclideanDistance a b = NaN"
proof -
  let ?f = "\<lambda>i. js_pow2 (js_sub (js_get a i) (js_get b i))"
  have "?f (length b) = NaN" by (simp add: js_get_def js_sub_def js_pow2_def)
  moreover have "length b \<in> set [0..<length a]" using assms by simp
  ultimately have "fold (\<lambda>i sum. js_add sum (?f i)) [0..<length a] (Fin 0) = NaN"
    by (rule fold_add_NaN_term [rotated])
  then show ?thesis by (simp add: euclideanDistance_def)
qed

lemma euclideanDistance_long:
  assumes "length a \<le> length b"
  shows "euclideanDistance a b = euclideanDistance a (take (length a) b)"
proof -
  have "js_get b i = js_get (take (length a) b) i" if "i < length a" for i
    using that assms by (simp add: js_get_def)
  then have "fold (\<lambda>i sum. js_add sum (js_pow2 (js_sub (js_get a i) (js_get b i)))) [0..<length a] (Fin 0)
           = fold (\<lambda>i sum. js_add sum (js_pow2 (js_sub (js_get a i) (js_get (take (length a) b) i))))
               [0..<length a] (Fin 0)"
    by (intro fold_cong) simp_all
  then show ?thesis by (simp add: euclideanDistance_def)
qed

lemma kmeans_empty: "kmeans rnd [] k maxIterations = Some (Inl TypeError)"
  by (simp add: kmeans_def kmeans_run_def)

lemma seed_single:
  "seed_loop (const_rng (1/2)) 1 [[Fin 0]] 2 [[Fin 0]] {0} = Some ([[Fin 0], [Fin 0]], 2)"
  apply (subst seed_loop.simps)
  apply (simp add: seed_distances_def const_rng_def js_sub_def Let_def)
  apply (subst seed_loop.simps)
  apply (simp add: Let_def)
  done

lemma kmeans_single:
  "kmeans (const_rng (1/2)) [[Fin 0]] 2 50 = Some (Inr [0])"
proof -
  let ?X = "[[Fin 0]]"
  have a: "\<lfloor>const_rng (1/2) 0 * real (length ?X)\<rfloor> = int 0"
    by (simp add: const_rng_def)
  have b: "seed_loop (const_rng (1/2)) 1 ?X 2 [?X ! 0] {0} = Some ([[Fin 0], [Fin 0]], 2)"
    using seed_single by simp
  have c: "0 < length ?X" by simp
  have as: "assign_all 2 [[Fin 0], [Fin 0]] ?X = [0]"
    by (simp add: assign_all_def assign_def assign_step_def upt3 dist_00)
  have "iterate 50 ?X 2 (length [Fin 0]) [[Fin 0], [Fin 0]] (replicate (length ?X) 0) 0 [] =
        \<lparr>run_centroids = [[Fin 0], [Fin 0]], run_labels = [0], passes = 1, converged = True, history = [[0]]\<rparr>"
    by (simp add: iterate_unfold as same_labels_def split del: if_split)
  with kmeans_run_seeded [OF refl a c b, of 50] show ?thesis
    by (simp add: kmeans_def)
qed

subsection \<open>A seeding that never returns\<close>



section \<open>Claims about the Cluster Engine\<close>

text \<open>
  C7. For every run of the Cluster Engine on N embeddings with 1 <= K <= N, the returned
  assignment has exactly one slot per sample index (its length is N) and every slot lies
  in [0, K). This holds of whatever assignment a run returns, for any stream of random
  numbers; and a run whose seeding has returned does return an assignment, for the
  iteration after it is bounded. Whether the seeding returns is not part of this claim.
\<close>

theorem kmeans_assignment_total:
  assumes "1 \<le> k" "k \<le> length embeddings"
  shows "(\<forall>ls. kmeans rnd embeddings k maxIterations = Some (Inr ls) \<longrightarrow>
            length ls = length embeddings \<and> (\<forall>l \<in> set ls. l < k)) \<and>
         (unit_rng rnd \<longrightarrow>
            (\<forall>cs t.
               seed_loop rnd 1 embeddings k
                 [embeddings ! nat \<lfloor>rnd 0 * real (length embeddings)\<rfloor>]
                 {nat \<lfloor>rnd 0 * real (length embeddings)\<rfloor>} = Some (cs, t) \<longrightarrow>
               (\<exists>ls. kmeans rnd embeddings k maxIterations = Some (Inr ls) \<and>
                     length ls = length embeddings \<and> (\<forall>l \<in> set ls. l < k))))"
proof -
  have ne: "embeddings \<noteq> []" and k: "0 < k" using assms by auto
  have shape: "length ls = length embeddings \<and> (\<forall>l \<in> set ls. l < k)"
    if "kmeans rnd embeddings k maxIterations = Some (Inr ls)" for ls
  proof -
    from kmeans_Inr [OF that] obtain r where
      run: "kmeans_run rnd embeddings k maxIterations = Some (Inr r)" and ls: "ls = run_labels r"
      by blast
    from kmeans_run_Inr [OF run] obtain cs where
      r: "r = iterate maxIterations embeddings k (length (hd embeddings)) cs
             (replicate (length embeddings) 0) 0 []"
      by blast
    have "length (run_labels (iterate maxIterations embeddings k (length (hd embeddings)) cs
             (replicate (length embeddings) 0) 0 [])) = length embeddings \<and>
          (\<forall>l \<in> set (run_labels (iterate maxIterations embeddings k (length (hd embeddings)) cs
             (replicate (length embeddings) 0) 0 [])). l < k)"
      using k by (intro iterate_labels) auto
    then show ?thesis unfolding ls r .
  qed
  have ret: "\<exists>ls. kmeans rnd embeddings k maxIterations = Some (Inr ls) \<and>
                 length ls = length embeddings \<and> (\<forall>l \<in> set ls. l < k)"
    if u: "unit_rng rnd" and
       seed: "seed_loop rnd 1 embeddings k
                [embeddings ! nat \<lfloor>rnd 0 * real (length embeddings)\<rfloor>]
                {nat \<lfloor>rnd 0 * real (length embeddings)\<rfloor>} = Some (cs, t)" for cs t
  proof -
    from kmeans_run_returned [OF u ne seed, of maxIterations] obtain ls where
      "kmeans rnd embeddings k maxIterations = Some (Inr ls)"
      by (simp add: kmeans_def)
    with shape [OF this] show ?thesis by blast
  qed
  from shape ret show ?thesis by blast
qed

theorem kmeans_assignment_total_witness:
  "(1::nat) \<le> 3 \<and> 3 \<le> length [[Fin 0], [Fin 0], [Fin 1]] \<and>
   kmeans (const_rng (1/2)) [[Fin 0], [Fin 0], [Fin 1]] 3 50 = Some (Inr [0, 0, 1]) \<and>
   length [0, 0, 1::nat] = length [[Fin 0], [Fin 0], [Fin 1]] \<and> list_all (\<lambda>l. l < 3) [0, 0, 1::nat] \<and>
   unit_rng (const_rng (1/2)) \<and>
   seed_loop (const_rng (1/2)) 1 [[Fin 0], [Fin 0], [Fin 1]] 3
       [[[Fin 0], [Fin 0], [Fin 1]] ! nat \<lfloor>(const_rng (1/2)) 0 * real (length [[Fin 0], [Fin 0], [Fin 1]])\<rfloor>]
       {nat \<lfloor>(const_rng (1/2)) 0 * real (length [[Fin 0], [Fin 0], [Fin 1]])\<rfloor>} = Some ([[Fin 0], [Fin 1], [Fin 0]], 3) \<and>
   (\<exists>ls. kmeans (const_rng (1/2)) [[Fin 0], [Fin 0], [Fin 1]] 3 50 = Some (Inr ls) \<and>
         length ls = length [[Fin 0], [Fin 0], [Fin 1]] \<and> list_all (\<lambda>l. l < 3) ls)"
proof -
  have u: "unit_rng (const_rng (1/2))" by (simp add: unit_rng_def const_rng_def)
  have le: "(1::nat) \<le> 3" "3 \<le> length [[Fin 0], [Fin 0], [Fin 1]]" by simp_all
  have idx: "nat \<lfloor>const_rng (1/2) 0 * real (length [[Fin 0], [Fin 0], [Fin 1]])\<rfloor> = 1"
    by (simp add: const_rng_def floor_eq_iff)
  have seed: "seed_loop (const_rng (1/2)) 1 [[Fin 0], [Fin 0], [Fin 1]] 3
       [[[Fin 0], [Fin 0], [Fin 1]] ! nat \<lfloor>(const_rng (1/2)) 0 * real (length [[Fin 0], [Fin 0], [Fin 1]])\<rfloor>]
       {nat \<lfloor>(const_rng (1/2)) 0 * real (length [[Fin 0], [Fin 0], [Fin 1]])\<rfloor>} = Some ([[Fin 0], [Fin 1], [Fin 0]], 3)"
    unfolding idx using seed_ex by simp
  have ret: "kmeans (const_rng (1/2)) [[Fin 0], [Fin 0], [Fin 1]] 3 50 = Some (Inr [0, 0, 1])"
    by (simp add: kmeans_def run_ex)
  note t = kmeans_assignment_total [OF le, of "const_rng (1/2)" 50]
  from t [THEN conjunct1, rule_format, OF ret]
  have a: "length [0, 0, 1::nat] = length [[Fin 0], [Fin 0], [Fin 1]] \<and> list_all (\<lambda>l. l < 3) [0, 0, 1::nat]"
    by (simp add: list_all_iff)
  from t [THEN conjunct2, rule_format, OF u seed]
  have b: "\<exists>ls. kmeans (const_rng (1/2)) [[Fin 0], [Fin 0], [Fin 1]] 3 50 = Some (Inr ls) \<and>
         length ls = length [[Fin 0], [Fin 0], [Fin 1]] \<and> list_all (\<lambda>l. l < 3) ls"
    by (simp add: list_all_iff)
  from le ret a u seed b show ?thesis by blast
qed

text \<open>
  C2. If the iteration of kmeans leaves through the convergence branch, running the Assign
  step again against the final centroids returns exactly the output assignment; on a
  valid embedding set the slot of every sample is that of its nearest centroid, the
  lowest such slot.
\<close>

theorem kmeans_converged_fixed_point:
  assumes "1 \<le> k" "k \<le> length embeddings"
    "kmeans_run rnd embeddings k maxIterations = Some (Inr r)" "converged r"
  shows "kmeans rnd embeddings k maxIterations = Some (Inr (run_labels r)) \<and>
         assign_all k (run_centroids r) embeddings = run_labels r \<and>
         (unit_rng rnd \<and> valid_embeddings embeddings \<longrightarrow>
            (\<forall>i < length embeddings.
               nearest k (run_centroids r) (embeddings ! i) (run_labels r ! i)))"
proof (intro conjI impI allI)
  obtain e0 es where e: "embeddings = e0 # es" using assms(1,2) by (cases embeddings) auto
  from assms(3) obtain cs where
    r: "r = iterate maxIterations embeddings k (length e0) cs (replicate (length embeddings) 0) 0 []"
    unfolding kmeans_run_def e
    by (auto simp: Let_def split: if_splits option.splits)
  show fp: "assign_all k (run_centroids r) embeddings = run_labels r"
    using assms(4) unfolding r by (intro iterate_fixed_point) simp_all
  show "kmeans rnd embeddings k maxIterations = Some (Inr (run_labels r))"
    by (simp add: kmeans_def assms(3))
  fix i
  assume v: "unit_rng rnd \<and> valid_embeddings embeddings" and i: "i < length embeddings"
  let ?d = "length (hd embeddings)"
  have ne: "embeddings \<noteq> []" using e by simp
  have fv: "\<forall>e \<in> set embeddings. fin_vec ?d e" using v by (simp add: valid_fin_vec)
  from kmeans_run_Inr [OF assms(3)] obtain cs' t where
    lt: "nat \<lfloor>rnd 0 * real (length embeddings)\<rfloor> < length embeddings" and
    seed: "seed_loop rnd 1 embeddings k
             [embeddings ! nat \<lfloor>rnd 0 * real (length embeddings)\<rfloor>]
             {nat \<lfloor>rnd 0 * real (length embeddings)\<rfloor>} = Some (cs', t)" and
    r': "r = iterate maxIterations embeddings k ?d cs' (replicate (length embeddings) 0) 0 []"
    by blast
  from seed_loop_result [OF seed] lt
  have len': "length cs' = max k 1" and sub: "set cs' \<subseteq> set embeddings"
    by auto
  have fc: "\<forall>c \<in> set cs'. fin_vec ?d c" using sub fv by blast
  have len: "length (run_centroids r) = max k 1"
    unfolding r' by (simp add: iterate_centroids_length len')
  have fin: "\<forall>x \<in> set (run_centroids r). fin_vec ?d x"
    unfolding r' using fc by (rule iterate_centroids_fin [OF fv])
  have "fin_nonneg (euclideanDistance (embeddings ! i) (run_centroids r ! c))" if "c < k" for c
  proof -
    have "run_centroids r ! c \<in> set (run_centroids r)" using that len by simp
    with fin have "fin_vec ?d (run_centroids r ! c)" by blast
    moreover have "fin_vec ?d (embeddings ! i)" using fv i by simp
    ultimately show ?thesis by (intro euclideanDistance_nonneg)
  qed
  then have "nearest k (run_centroids r) (embeddings ! i)
               (assign k (run_centroids r) (embeddings ! i))"
    using assms(1) by (intro assign_nearest) simp_all
  moreover have "run_labels r ! i = assign k (run_centroids r) (embeddings ! i)"
    using i by (simp add: fp [symmetric] assign_all_def)
  ultimately show "nearest k (run_centroids r) (embeddings ! i) (run_labels r ! i)"
    by simp
qed

theorem kmeans_converged_fixed_point_witness:
  "(1::nat) \<le> 3 \<and> 3 \<le> length [[Fin 0], [Fin 0], [Fin 1]] \<and>
   kmeans (const_rng (1/2)) [[Fin 0], [Fin 0], [Fin 1]] 3 50 = Some (Inr [0, 0, 1]) \<and>
   assign_all 3 [[Fin 0], [Fin 1], [Fin 0]] [[Fin 0], [Fin 0], [Fin 1]] = [0, 0, 1] \<and>
   unit_rng (const_rng (1/2)) \<and> valid_embeddings [[Fin 0], [Fin 0], [Fin 1]] \<and>
   nearest 3 [[Fin 0], [Fin 1], [Fin 0]] [Fin 1] 1"
proof -
  have v: "unit_rng (const_rng (1/2)) \<and> valid_embeddings [[Fin 0], [Fin 0], [Fin 1]]"
    by (simp add: unit_rng_def const_rng_def valid_embeddings_def)
  from kmeans_converged_fixed_point [OF _ _ run_ex] v
  have n: "\<forall>i < length [[Fin 0], [Fin 0], [Fin 1]].
      nearest 3 [[Fin 0], [Fin 1], [Fin 0]] ([[Fin 0], [Fin 0], [Fin 1]] ! i) ([0, 0, 1] ! i)"
    by simp
  from n [rule_format, of 2]
  have "nearest 3 [[Fin 0], [Fin 1], [Fin 0]] [Fin 1] 1" by simp
  with kmeans_converged_fixed_point [OF _ _ run_ex] v show ?thesis by simp
qed

text \<open>
  C5. In every Update step a cluster slot to which no sample is assigned keeps its
  centroid unchanged, and the run completes without throwing within the iteration cap:
  no run on a set with at least one sample throws, and a run whose seeding has returned
  returns after at most maxIterations passes, whatever slots are empty.
\<close>

theorem update_keeps_empty_slot:
  "((\<forall>i < length embeddings. ls ! i \<noteq> c) \<longrightarrow>
      update embeddings k dimn ls cs ! c = cs ! c) \<and>
   (unit_rng rnd \<and> embeddings \<noteq> [] \<longrightarrow>
      kmeans_run rnd embeddings k maxIterations \<noteq> Some (Inl TypeError) \<and>
      (\<forall>cs0 t.
         seed_loop rnd 1 embeddings k
           [embeddings ! nat \<lfloor>rnd 0 * real (length embeddings)\<rfloor>]
           {nat \<lfloor>rnd 0 * real (length embeddings)\<rfloor>} = Some (cs0, t) \<longrightarrow>
         (\<exists>r. kmeans_run rnd embeddings k maxIterations = Some (Inr r) \<and>
              passes r \<le> maxIterations)))"
proof (intro conjI impI allI)
  assume "\<forall>i < length embeddings. ls ! i \<noteq> c"
  then have "cluster_points embeddings ls c = []" by (rule cluster_points_empty)
  then show "update embeddings k dimn ls cs ! c = cs ! c"
    unfolding update_def by (rule fold_update_slot_empty)
next
  assume "unit_rng rnd \<and> embeddings \<noteq> []"
  then show "kmeans_run rnd embeddings k maxIterations \<noteq> Some (Inl TypeError)"
    by (simp add: kmeans_run_no_error)
next
  fix cs0 t
  assume a: "unit_rng rnd \<and> embeddings \<noteq> []"
  assume seed: "seed_loop rnd 1 embeddings k
           [embeddings ! nat \<lfloor>rnd 0 * real (length embeddings)\<rfloor>]
           {nat \<lfloor>rnd 0 * real (length embeddings)\<rfloor>} = Some (cs0, t)"
  from a have u: "unit_rng rnd" and ne: "embeddings \<noteq> []" by simp_all
  show "\<exists>r. kmeans_run rnd embeddings k maxIterations = Some (Inr r) \<and> passes r \<le> maxIterations"
    using kmeans_run_returned [OF u ne seed, of maxIterations]
      iterate_passes [of maxIterations embeddings k "length (hd embeddings)" cs0
        "replicate (length embeddings) 0" 0 "[]"]
    by auto
qed

theorem update_keeps_empty_slot_witness:
  "[0, 0, 1] ! 0 \<noteq> (2::nat) \<and> [0, 0, 1] ! 1 \<noteq> (2::nat) \<and> [0, 0, 1] ! 2 \<noteq> (2::nat) \<and>
   update [[Fin 0], [Fin 0], [Fin 1]] 3 1 [0, 0, 1] [[Fin 0], [Fin 1], [Fin 0]] ! 2 = [Fin 0] \<and>
   unit_rng (const_rng (1/2)) \<and> [[Fin 0], [Fin 0], [Fin 1]] \<noteq> [] \<and>
   kmeans_run (const_rng (1/2)) [[Fin 0], [Fin 0], [Fin 1]] 3 50 \<noteq> Some (Inl TypeError) \<and>
   seed_loop (const_rng (1/2)) 1 [[Fin 0], [Fin 0], [Fin 1]] 3
       [[[Fin 0], [Fin 0], [Fin 1]] ! nat \<lfloor>(const_rng (1/2)) 0 * real (length [[Fin 0], [Fin 0], [Fin 1]])\<rfloor>]
       {nat \<lfloor>(const_rng (1/2)) 0 * real (length [[Fin 0], [Fin 0], [Fin 1]])\<rfloor>} = Some ([[Fin 0], [Fin 1], [Fin 0]], 3) \<and>
   (\<exists>r. kmeans_run (const_rng (1/2)) [[Fin 0], [Fin 0], [Fin 1]] 3 50 = Some (Inr r) \<and> passes r \<le> 50)"
proof -
  have h: "\<forall>i < length [[Fin 0], [Fin 0], [Fin 1]]. [0, 0, 1] ! i \<noteq> (2::nat)"
    by (simp add: less_Suc_eq)
  have u: "unit_rng (const_rng (1/2)) \<and> [[Fin 0], [Fin 0], [Fin 1]] \<noteq> []"
    by (simp add: unit_rng_def const_rng_def)
  have idx: "nat \<lfloor>const_rng (1/2) 0 * real (length [[Fin 0], [Fin 0], [Fin 1]])\<rfloor> = 1"
    by (simp add: const_rng_def floor_eq_iff)
  have seed: "seed_loop (const_rng (1/2)) 1 [[Fin 0], [Fin 0], [Fin 1]] 3
       [[[Fin 0], [Fin 0], [Fin 1]] ! nat \<lfloor>(const_rng (1/2)) 0 * real (length [[Fin 0], [Fin 0], [Fin 1]])\<rfloor>]
       {nat \<lfloor>(const_rng (1/2)) 0 * real (length [[Fin 0], [Fin 0], [Fin 1]])\<rfloor>} = Some ([[Fin 0], [Fin 1], [Fin 0]], 3)"
    unfolding idx using seed_ex by simp
  note t = update_keeps_empty_slot [of "[[Fin 0], [Fin 0], [Fin 1]]" "[0, 0, 1]" 2 3 1
      "[[Fin 0], [Fin 1], [Fin 0]]" "const_rng (1/2)" 50]
  from t [THEN conjunct1, THEN mp, OF h]
  have a: "update [[Fin 0], [Fin 0], [Fin 1]] 3 1 [0, 0, 1] [[Fin 0], [Fin 1], [Fin 0]] ! 2 = [Fin 0]" by simp
  from t [THEN conjunct2, rule_format, OF u]
  have b: "kmeans_run (const_rng (1/2)) [[Fin 0], [Fin 0], [Fin 1]] 3 50 \<noteq> Some (Inl TypeError)" and
    c: "\<forall>cs0 t. seed_loop (const_rng (1/2)) 1 [[Fin 0], [Fin 0], [Fin 1]] 3
       [[[Fin 0], [Fin 0], [Fin 1]] ! nat \<lfloor>(const_rng (1/2)) 0 * real (length [[Fin 0], [Fin 0], [Fin 1]])\<rfloor>]
       {nat \<lfloor>(const_rng (1/2)) 0 * real (length [[Fin 0], [Fin 0], [Fin 1]])\<rfloor>} = Some (cs0, t) \<longrightarrow>
         (\<exists>r. kmeans_run (const_rng (1/2)) [[Fin 0], [Fin 0], [Fin 1]] 3 50 = Some (Inr r) \<and> passes r \<le> 50)"
    by blast+
  from c [rule_format, OF seed]
  have d: "\<exists>r. kmeans_run (const_rng (1/2)) [[Fin 0], [Fin 0], [Fin 1]] 3 50 = Some (Inr r) \<and> passes r \<le> 50" .
  from a u b seed d show ?thesis by simp
qed



section \<open>Properties of the Neighbor Index and the Spatializer\<close>

subsection \<open>Sorting\<close>

lemma length_js_insert [simp]: "length (js_insert cmp x ys) = Suc (length ys)"
  by (induction ys) simp_all

lemma set_js_insert [simp]: "set (js_insert cmp x ys) = insert x (set ys)"
  by (induction ys) auto

lemma length_js_sort [simp]: "length (js_sort cmp xs) = length xs"
  by (induction xs) (simp_all add: js_sort_def)

lemma set_js_sort [simp]: "set (js_sort cmp xs) = set xs"
  by (induction xs) (simp_all add: js_sort_def)

lemma js_insert_insort_key:
  assumes "\<forall>y \<in> set (x # ys). is_fin (snd y)"
  shows "js_insert (\<lambda>a b. js_sub (snd a) (snd b)) x ys = insort_key (\<lambda>a. val (snd a)) x ys"
  using assms
proof (induction ys)
  case Nil
  then show ?case by simp
next
  case (Cons y ys)
  from Cons.prems obtain a b where ab: "snd x = Fin a" "snd y = Fin b"
    by (auto simp: is_fin_conv)
  have "js_gt0 (js_sub (snd x) (snd y)) \<longleftrightarrow> \<not> a \<le> b"
    by (auto simp: ab js_gt0_def js_sub_def)
  with Cons show ?case by (simp add: ab)
qed

lemma js_sort_sort_key:
  "\<forall>y \<in> set xs. is_fin (snd y) \<Longrightarrow>
   js_sort (\<lambda>a b. js_sub (snd a) (snd b)) xs = sort_key (\<lambda>a. val (snd a)) xs"
proof (induction xs)
  case Nil
  then show ?case by (simp add: js_sort_def)
next
  case (Cons x xs)
  then have "js_sort (\<lambda>a b. js_sub (snd a) (snd b)) xs = sort_key (\<lambda>a. val (snd a)) xs"
    by simp
  moreover have "\<forall>y \<in> set (x # sort_key (\<lambda>a. val (snd a)) xs). is_fin (snd y)"
    using Cons.prems by simp
  ultimately show ?case
    using js_insert_insort_key [of x "sort_key (\<lambda>a. val (snd a)) xs"]
    by (simp add: js_sort_def sort_key_def)
qed

lemma sorted_js_sort:
  assumes "\<forall>y \<in> set xs. is_fin (snd y)"
  shows "sorted_wrt (\<lambda>a b. js_le (snd a) (snd b)) (js_sort (\<lambda>a b. js_sub (snd a) (snd b)) xs)"
proof -
  let ?ys = "sort_key (\<lambda>a. val (snd a)) xs"
  have "sorted (map (\<lambda>a. val (snd a)) ?ys)" by (rule sorted_sort_key)
  then have s: "sorted_wrt (\<lambda>a b. val (snd a) \<le> val (snd b)) ?ys"
    by (simp add: sorted_map)
  have "\<forall>y \<in> set ?ys. is_fin (snd y)" using assms by simp
  from s have "sorted_wrt (\<lambda>a b. js_le (snd a) (snd b)) ?ys"
  proof (rule sorted_wrt_mono_rel [rotated])
    fix a b :: "'a \<times> jsnum"
    assume "a \<in> set ?ys" "b \<in> set ?ys" "val (snd a) \<le> val (snd b)"
    with \<open>\<forall>y \<in> set ?ys. is_fin (snd y)\<close> show "js_le (snd a) (snd b)"
      by (cases "snd a"; cases "snd b") auto
  qed
  then show ?thesis by (simp add: js_sort_sort_key [OF assms])
qed

subsection \<open>Neighbor Index\<close>

lemma length_distance_row [simp]:
  "length (distance_row embeddings dimn i) = length embeddings"
  by (simp add: distance_row_def)

lemma pair_distance_nonneg:
  assumes "\<forall>e \<in> set embeddings. fin_vec dimn e" "i < length embeddings" "j < length embeddings"
  shows "fin_nonneg (pair_distance embeddings dimn i j)"
proof (cases "i = j")
  case True
  then show ?thesis by (simp add: pair_distance_def fin_nonneg_def)
next
  case False
  have fi: "fin_vec dimn (embeddings ! i)" and fj: "fin_vec dimn (embeddings ! j)"
    using assms by simp_all
  have "fin_nonneg (fold (\<lambda>d sum. js_add sum
           (js_pow2 (js_sub (js_get (embeddings ! i) d) (js_get (embeddings ! j) d))))
           [0..<dimn] (Fin 0))"
    by (rule fold_add_nonneg)
       (auto simp: fin_nonneg_conv [of "Fin 0"] intro!: fin_nonneg_pow2_sub js_get_fin [OF fi] js_get_fin [OF fj])
  then show ?thesis using False by (simp add: pair_distance_def fin_nonneg_sqrt)
qed

lemma filter_zip_upt_length:
  "i < length row \<Longrightarrow> length (filter (\<lambda>x. fst x \<noteq> i) (zip [0..<length row] row)) = length row - 1"
proof -
  assume i: "i < length row"
  let ?z = "zip [0..<length row] row"
  have "map fst ?z = [0..<length row]" by simp
  have "length (filter (\<lambda>x. fst x \<noteq> i) ?z) = length (filter (\<lambda>j. j \<noteq> i) (map fst ?z))"
    unfolding filter_map comp_def by (simp only: length_map)
  also have "\<dots> = length (filter (\<lambda>j. j \<noteq> i) [0..<length row])" by simp
  also have "\<dots> = card {j \<in> {0..<length row}. j \<noteq> i}"
    by (simp add: distinct_length_filter Int_def conj_commute)
  also have "{j \<in> {0..<length row}. j \<noteq> i} = {0..<length row} - {i}" by auto
  also have "card \<dots> = length row - 1" using i by simp
  finally show ?thesis .
qed

lemma pair_distance_euclidean:
  "i \<noteq> j \<Longrightarrow> length (embeddings ! i) = dimn \<Longrightarrow>
   pair_distance embeddings dimn i j = euclideanDistance (embeddings ! i) (embeddings ! j)"
  by (simp add: pair_distance_def euclideanDistance_def)

lemma knn_of_nth:
  "i < length embeddings \<Longrightarrow>
   knn_of embeddings dimn nNeighbors ! i =
     knn_row (length embeddings) nNeighbors i (distance_row embeddings dimn i)"
  by (simp add: knn_of_def)

lemma knn_row_set:
  assumes "x \<in> set (knn_row n nNeighbors i row)"
  shows "fst x \<noteq> i \<and> fst x < length row \<and> snd x = row ! fst x"
proof -
  from assms have "x \<in> set (filter (\<lambda>x. fst x \<noteq> i) (zip [0..<length row] row))"
    unfolding knn_row_def by (auto dest: in_set_takeD)
  then show ?thesis by (auto simp: set_zip)
qed

lemma knn_row_length:
  "i < length row \<Longrightarrow> length row = n \<Longrightarrow>
   length (knn_row n nNeighbors i row) = min nNeighbors (n - 1)"
  using filter_zip_upt_length [of i row] by (auto simp: knn_row_def)

lemma knn_row_sorted:
  assumes "\<forall>d \<in> set row. is_fin d"
  shows "sorted_wrt (\<lambda>a b. js_le (snd a) (snd b)) (knn_row n nNeighbors i row)"
proof -
  have "\<forall>y \<in> set (filter (\<lambda>x. fst x \<noteq> i) (zip [0..<length row] row)). is_fin (snd y)"
    using assms by (auto dest: set_zip_rightD)
  from sorted_js_sort [OF this] show ?thesis
    unfolding knn_row_def by (rule sorted_wrt_take)
qed

lemma distance_row_fin:
  assumes "\<forall>e \<in> set embeddings. fin_vec dimn e" "i < length embeddings"
  shows "\<forall>d \<in> set (distance_row embeddings dimn i). is_fin d"
  using pair_distance_nonneg [OF assms]
  by (auto simp: distance_row_def fin_nonneg_def)

subsection \<open>Spatializer: positions stay finite\<close>

lemma fin_vec2_conv: "fin_vec 2 p \<longleftrightarrow> (\<exists>a b. p = [Fin a, Fin b])"
proof
  assume "fin_vec 2 p"
  then have l: "length p = 2" and f: "\<forall>x \<in> set p. is_fin x" by (simp_all add: fin_vec_def)
  from l obtain x y where p: "p = [x, y]"
    by (cases p; cases "tl p") auto
  with f show "\<exists>a b. p = [Fin a, Fin b]" by (auto simp: is_fin_conv)
next
  assume "\<exists>a b. p = [Fin a, Fin b]"
  then show "fin_vec 2 p" by (auto simp: fin_vec_def)
qed

lemma init_positions_fin:
  "length (init_positions rnd n 2) = n \<and> (\<forall>p \<in> set (init_positions rnd n 2). fin_vec 2 p)"
  by (auto simp: init_positions_def fin_vec_def js_sub_def)

lemma add_force_fin:
  "fin_vec 2 f \<Longrightarrow> is_fin fx \<Longrightarrow> is_fin fy \<Longrightarrow> fin_vec 2 (add_force f fx fy)"
  by (auto simp: fin_vec2_conv is_fin_conv add_force_def set_at_def js_get_def)

lemma delta_fin:
  "fin_vec 2 p \<Longrightarrow> fin_vec 2 q \<Longrightarrow> c < 2 \<Longrightarrow> is_fin (delta p q c)"
  by (auto simp: fin_vec2_conv delta_def js_get_def js_sub_def less_2_cases_iff)

lemma floor_dist_pos:
  assumes "is_fin dx" "is_fin dy"
  shows "\<exists>r. floor_dist dx dy = Fin r \<and> 1/1000 \<le> r"
proof -
  from assms obtain a b where "dx = Fin a" "dy = Fin b" by (auto simp: is_fin_conv)
  moreover have "\<not> a * a + b * b < 0" by (simp add: not_less)
  moreover have "0 \<le> sqrt (a * a + b * b)" by simp
  ultimately show ?thesis by (simp add: floor_dist_def)
qed

lemma attract_fin:
  assumes "fin_vec 2 (positions ! i)" "fin_vec 2 (positions ! j)" "fin_vec 2 f"
  shows "fin_vec 2 (attract positions i j f)"
proof -
  let ?dx = "delta (positions ! j) (positions ! i) 0"
  let ?dy = "delta (positions ! j) (positions ! i) 1"
  from assms obtain a b where d: "?dx = Fin a" "?dy = Fin b"
    using delta_fin [of "positions ! j" "positions ! i" 0]
      delta_fin [of "positions ! j" "positions ! i" 1]
    by (auto simp: is_fin_conv)
  from floor_dist_pos [of "Fin a" "Fin b"]
  obtain r where r: "floor_dist (Fin a) (Fin b) = Fin r" "1/1000 \<le> r"
    by auto
  then have "r \<noteq> 0" "\<not> r + 1 < 0" "r + 1 \<noteq> 0" by auto
  then show ?thesis
    unfolding attract_def Let_def d r
    by (intro add_force_fin assms) simp_all
qed

lemma repel_fin:
  assumes "fin_vec 2 (positions ! i)" "fin_vec 2 (positions ! nat \<lfloor>u * real n\<rfloor>)" "fin_vec 2 f"
  shows "fin_vec 2 (repel positions n i u f)"
proof -
  let ?j = "nat \<lfloor>u * real n\<rfloor>"
  let ?dx = "delta (positions ! ?j) (positions ! i) 0"
  let ?dy = "delta (positions ! ?j) (positions ! i) 1"
  from assms obtain a b where d: "?dx = Fin a" "?dy = Fin b"
    using delta_fin [of "positions ! ?j" "positions ! i" 0]
      delta_fin [of "positions ! ?j" "positions ! i" 1]
    by (auto simp: is_fin_conv)
  from floor_dist_pos [of "Fin a" "Fin b"]
  obtain r where r: "floor_dist (Fin a) (Fin b) = Fin r" "1/1000 \<le> r"
    by auto
  then have nz: "r \<noteq> 0" by auto
  have "fin_vec 2 (add_force f (js_div (js_mul (js_div (Fin (- (1/2))) (js_mul (Fin r) (Fin r))) (Fin a)) (Fin r))
                            (js_div (js_mul (js_div (Fin (- (1/2))) (js_mul (Fin r) (Fin r))) (Fin b)) (Fin r)))"
    using nz by (intro add_force_fin assms) simp_all
  then show ?thesis
    unfolding repel_def Let_def d r using assms(3) by simp
qed

lemma integrate_fin:
  "fin_vec 2 p \<Longrightarrow> fin_vec 2 f \<Longrightarrow> fin_vec 2 (integrate p f (Fin c))"
  by (auto simp: fin_vec2_conv integrate_def set_at_def js_get_def)

lemma fold_attract_fin:
  assumes "\<forall>p \<in> set positions. fin_vec 2 p" "i < length positions"
  shows "\<forall>x \<in> set xs. fst x < length positions \<Longrightarrow> fin_vec 2 f \<Longrightarrow>
         fin_vec 2 (fold (\<lambda>(j, d) f. attract positions i j f) xs f)"
proof (induction xs arbitrary: f)
  case Nil
  then show ?case by simp
next
  case (Cons x xs)
  obtain j d where x: "x = (j, d)" by (cases x)
  with Cons.prems have "j < length positions" by simp
  with assms Cons.prems(2) have "fin_vec 2 (attract positions i j f)"
    by (intro attract_fin) simp_all
  with Cons show ?case by (simp add: x)
qed

lemma fold_repel_fin:
  assumes "\<forall>p \<in> set positions. fin_vec 2 p" "i < length positions" "unit_rng rnd"
    "n = length positions"
  shows "fin_vec 2 f \<Longrightarrow>
         fin_vec 2 (fold (\<lambda>s f. repel positions n i (rnd (g s)) f) xs f)"
proof (induction xs arbitrary: f)
  case Nil
  then show ?case by simp
next
  case (Cons s xs)
  have "0 \<le> rnd (g s)" "rnd (g s) < 1" using assms(3) by (simp_all add: unit_rng_def)
  moreover have "0 < n" using assms(2,4) by (cases positions) auto
  ultimately have "nat \<lfloor>rnd (g s) * real n\<rfloor> < length positions"
    using floor_index [of "rnd (g s)" n] assms(4) by linarith
  with assms Cons.prems have "fin_vec 2 (repel positions n i (rnd (g s)) f)"
    by (intro repel_fin) simp_all
  with Cons show ?case by simp
qed

lemma umap_pass_fin:
  assumes "\<forall>p \<in> set positions. fin_vec 2 p" "unit_rng rnd"
    "length knn = length positions"
    "\<forall>nb \<in> set knn. \<forall>x \<in> set nb. fst x < length positions"
  shows "length (umap_pass rnd t 2 knn iter positions) = length positions \<and>
         (\<forall>p \<in> set (umap_pass rnd t 2 knn iter positions). fin_vec 2 p)"
proof -
  let ?n = "length positions"
  let ?forces = "map (\<lambda>p. replicate 2 (Fin 0)) positions"
  let ?att = "map (\<lambda>i. fold (\<lambda>(j, d) f. attract positions i j f) (knn ! i) (?forces ! i)) [0..<?n]"
  let ?rep = "map (\<lambda>i. fold (\<lambda>s f. repel positions ?n i (rnd (t + i * min 30 ?n + s)) f)
                            [0..<min 30 ?n] (?att ! i)) [0..<?n]"
  have z: "fin_vec 2 (replicate 2 (Fin 0))" by (simp add: fin_vec_def)
  have att: "fin_vec 2 (?att ! i)" if "i < ?n" for i
  proof -
    have "knn ! i \<in> set knn" using assms(3) that by simp
    with assms(4) have "\<forall>x \<in> set (knn ! i). fst x < ?n" by blast
    then have "fin_vec 2 (fold (\<lambda>(j, d) f. attract positions i j f) (knn ! i) (?forces ! i))"
      using that z by (intro fold_attract_fin assms(1)) simp_all
    then show ?thesis using that by simp
  qed
  have rep: "fin_vec 2 (?rep ! i)" if "i < ?n" for i
  proof -
    have "fin_vec 2 (fold (\<lambda>s f. repel positions ?n i (rnd (t + i * min 30 ?n + s)) f)
                      [0..<min 30 ?n] (?att ! i))"
      using that att [OF that] by (intro fold_repel_fin assms(1,2)) simp_all
    then show ?thesis using that by simp
  qed
  have "fin_vec 2 (integrate (positions ! i) (?rep ! i) (Fin (1 - real iter / 200)))" if "i < ?n" for i
    using that assms(1) rep [OF that] by (intro integrate_fin) simp_all
  then show ?thesis
    unfolding umap_pass_def Let_def by auto
qed

lemma fold_umap_pass_fin:
  assumes "unit_rng rnd" "\<forall>nb \<in> set knn. \<forall>x \<in> set nb. fst x < length knn"
  shows "length positions = length knn \<Longrightarrow> \<forall>p \<in> set positions. fin_vec 2 p \<Longrightarrow>
         length (fold (\<lambda>iter ps. umap_pass rnd (g iter) 2 knn iter ps) xs positions) = length knn \<and>
         (\<forall>p \<in> set (fold (\<lambda>iter ps. umap_pass rnd (g iter) 2 knn iter ps) xs positions). fin_vec 2 p)"
proof (induction xs arbitrary: positions)
  case Nil
  then show ?case by simp
next
  case (Cons iter xs)
  have "length (umap_pass rnd (g iter) 2 knn iter positions) = length positions \<and>
        (\<forall>p \<in> set (umap_pass rnd (g iter) 2 knn iter positions). fin_vec 2 p)"
    using Cons.prems assms by (intro umap_pass_fin) simp_all
  with Cons.IH [of "umap_pass rnd (g iter) 2 knn iter positions"] Cons.prems(1)
  show ?case by simp
qed

lemma knn_of_indices:
  "length (knn_of embeddings dimn k) = length embeddings \<and>
   (\<forall>nb \<in> set (knn_of embeddings dimn k). \<forall>x \<in> set nb. fst x < length embeddings)"
  by (auto simp: knn_of_def dest!: knn_row_set)

lemma umap_nonempty:
  "embeddings \<noteq> [] \<Longrightarrow>
   umap rnd embeddings nComponents nNeighbors =
     Inr (fold (\<lambda>iter ps. umap_pass rnd
                  (length embeddings * nComponents + iter * (length embeddings * min 30 (length embeddings)))
                  nComponents (knn_of embeddings (length (hd embeddings)) nNeighbors) iter ps)
               [0..<200] (init_positions rnd (length embeddings) nComponents))"
  by (cases embeddings) (simp_all add: umap_def Let_def)

lemma umap_pass_single:
  assumes "unit_rng rnd"
  shows "umap_pass rnd t 2 [[]] iter [[Fin a, Fin b]] = [[Fin a, Fin b]]"
proof -
  have "0 \<le> rnd t" "rnd t < 1" using assms by (simp_all add: unit_rng_def)
  then have "\<lfloor>rnd t\<rfloor> = 0" by (simp add: floor_eq_iff)
  then show ?thesis
    by (simp add: umap_pass_def Let_def repel_def integrate_def set_at_def js_get_def
        numeral_2_eq_2)
qed

lemma fold_umap_pass_single:
  assumes "unit_rng rnd"
  shows "fold (\<lambda>iter ps. umap_pass rnd (g iter) 2 [[]] iter ps) xs [[Fin a, Fin b]] = [[Fin a, Fin b]]"
  by (induction xs) (simp_all add: umap_pass_single [OF assms])

lemma knn_of_single: "knn_of [e] dimn nNeighbors = [[]]"
  by (simp add: knn_of_def knn_row_def)

lemma init_positions_single:
  "init_positions rnd (Suc 0) 2 = [[Fin ((rnd 0 - 1/2) * 10), Fin ((rnd 1 - 1/2) * 10)]]"
  by (simp add: init_positions_def js_sub_def numeral_2_eq_2)

section \<open>Claims about the Neighbor Index and the Spatializer\<close>

text \<open>
  C1. For an embedding set of size N and a neighbor count k, the neighbor list of every
  sample i has exactly min(k, N-1) entries, is ordered by non-decreasing distance to i,
  and never contains i itself.
\<close>

theorem knn_neighbors:
  assumes "valid_embeddings embeddings" "i < length embeddings"
  shows "length (knn_of embeddings (length (hd embeddings)) nNeighbors ! i) =
           min nNeighbors (length embeddings - 1) \<and>
         sorted_wrt (\<lambda>a b. js_le (snd a) (snd b))
           (knn_of embeddings (length (hd embeddings)) nNeighbors ! i) \<and>
         i \<notin> fst ` set (knn_of embeddings (length (hd embeddings)) nNeighbors ! i) \<and>
         (\<forall>x \<in> set (knn_of embeddings (length (hd embeddings)) nNeighbors ! i).
            fst x < length embeddings \<and>
            snd x = euclideanDistance (embeddings ! i) (embeddings ! fst x))"
proof -
  let ?d = "length (hd embeddings)"
  let ?row = "distance_row embeddings ?d i"
  let ?nb = "knn_row (length embeddings) nNeighbors i ?row"
  have fv: "\<forall>e \<in> set embeddings. fin_vec ?d e" using assms(1) by (rule valid_fin_vec)
  have nb: "knn_of embeddings ?d nNeighbors ! i = ?nb" using assms(2) by (rule knn_of_nth)
  have "length ?nb = min nNeighbors (length embeddings - 1)"
    using assms(2) by (intro knn_row_length) simp_all
  moreover have "sorted_wrt (\<lambda>a b. js_le (snd a) (snd b)) ?nb"
    using distance_row_fin [OF fv assms(2)] by (rule knn_row_sorted)
  moreover have "i \<notin> fst ` set ?nb" using knn_row_set [of _ "length embeddings" nNeighbors i ?row] by auto
  moreover have "fst x < length embeddings \<and>
      snd x = euclideanDistance (embeddings ! i) (embeddings ! fst x)" if "x \<in> set ?nb" for x
  proof -
    from knn_row_set [OF that] have x: "fst x \<noteq> i" "fst x < length embeddings" "snd x = ?row ! fst x"
      by simp_all
    have "length (embeddings ! i) = ?d" using fv assms(2) by (simp add: fin_vec_def)
    with x show ?thesis
      by (simp add: distance_row_def pair_distance_euclidean)
  qed
  ultimately show ?thesis unfolding nb by blast
qed

theorem knn_neighbors_witness:
  "valid_embeddings [[Fin 0], [Fin 0], [Fin 1]] \<and> (0::nat) < length [[Fin 0], [Fin 0], [Fin 1]] \<and>
   length (knn_of [[Fin 0], [Fin 0], [Fin 1]] (length (hd [[Fin 0], [Fin 0], [Fin 1]])) 1 ! 0) = 1 \<and>
   sorted_wrt (\<lambda>a b. js_le (snd a) (snd b))
     (knn_of [[Fin 0], [Fin 0], [Fin 1]] (length (hd [[Fin 0], [Fin 0], [Fin 1]])) 1 ! 0) \<and>
   0 \<notin> fst ` set (knn_of [[Fin 0], [Fin 0], [Fin 1]] (length (hd [[Fin 0], [Fin 0], [Fin 1]])) 1 ! 0)"
proof -
  have v: "valid_embeddings [[Fin 0], [Fin 0], [Fin 1]]" "(0::nat) < length [[Fin 0], [Fin 0], [Fin 1]]"
    by (simp_all add: valid_embeddings_def)
  from knn_neighbors [OF v, of 1] v show ?thesis by simp
qed

text \<open>
  C9. For N >= 1 embeddings, after the 200 passes of the Spatializer no coordinate of a
  returned position is NaN or infinite: the distance by which the attraction and the
  repulsion divide is never below the floor 0.001.
\<close>

theorem umap_positions_finite:
  assumes "unit_rng rnd" "embeddings \<noteq> []"
  shows "\<exists>ps. umap rnd embeddings 2 nNeighbors = Inr ps \<and>
              length ps = length embeddings \<and>
              (\<forall>p \<in> set ps. length p = 2 \<and> (\<forall>x \<in> set p. is_fin x))"
proof -
  let ?knn = "knn_of embeddings (length (hd embeddings)) nNeighbors"
  let ?n = "length embeddings"
  let ?ps = "fold (\<lambda>iter ps. umap_pass rnd (?n * 2 + iter * (?n * min 30 ?n)) 2 ?knn iter ps)
               [0..<200] (init_positions rnd ?n 2)"
  have k: "length ?knn = ?n" "\<forall>nb \<in> set ?knn. \<forall>x \<in> set nb. fst x < length ?knn"
    using knn_of_indices [of embeddings "length (hd embeddings)" nNeighbors] by simp_all
  have "length ?ps = length ?knn \<and> (\<forall>p \<in> set ?ps. fin_vec 2 p)"
    using init_positions_fin [of rnd ?n] k(1)
    by (intro fold_umap_pass_fin assms(1) k(2)) simp_all
  then have "length ?ps = ?n \<and> (\<forall>p \<in> set ?ps. length p = 2 \<and> (\<forall>x \<in> set p. is_fin x))"
    using k(1) by (simp add: fin_vec_def)
  then show ?thesis using umap_nonempty [OF assms(2), of rnd 2 nNeighbors] by simp
qed

theorem umap_positions_finite_witness:
  "unit_rng (const_rng (1/2)) \<and> [[Fin 0], [Fin 0], [Fin 1]] \<noteq> [] \<and>
   (\<exists>ps. umap (const_rng (1/2)) [[Fin 0], [Fin 0], [Fin 1]] 2 15 = Inr ps \<and>
         length ps = length [[Fin 0], [Fin 0], [Fin 1]] \<and>
         (\<forall>p \<in> set ps. length p = 2 \<and> (\<forall>x \<in> set p. is_fin x)))"
proof -
  have u: "unit_rng (const_rng (1/2))" by (simp add: unit_rng_def const_rng_def)
  have n: "[[Fin 0], [Fin 0], [Fin 1]] \<noteq> []" by simp
  from umap_positions_finite [OF u n, of 15] u n show ?thesis by blast
qed

text \<open>
  C4, as the code has it. On an empty embedding set the Spatializer throws (the read of
  embeddings[0].length); on a single sample every neighbor list is empty, no force is
  computed and nothing is divided: the one position returned is the initial random one.
\<close>

theorem umap_degenerate_sizes:
  "umap rnd [] nComponents nNeighbors = Inl TypeError \<and>
   (unit_rng rnd \<longrightarrow>
      umap rnd [e] 2 nNeighbors = Inr [[Fin ((rnd 0 - 1/2) * 10), Fin ((rnd 1 - 1/2) * 10)]])"
proof (intro conjI impI)
  show "umap rnd [] nComponents nNeighbors = Inl TypeError" by (simp add: umap_def)
next
  assume u: "unit_rng rnd"
  show "umap rnd [e] 2 nNeighbors = Inr [[Fin ((rnd 0 - 1/2) * 10), Fin ((rnd 1 - 1/2) * 10)]]"
    using umap_nonempty [of "[e]" rnd 2 nNeighbors]
    by (simp add: knn_of_single init_positions_single fold_umap_pass_single [OF u])
qed

theorem umap_degenerate_sizes_witness:
  "umap (const_rng (1/2)) [] 2 15 = Inl TypeError \<and> unit_rng (const_rng (1/2)) \<and>
   umap (const_rng (1/2)) [[Fin 0]] 2 15 = Inr [[Fin 0, Fin 0]]"
proof -
  have u: "unit_rng (const_rng (1/2))" by (simp add: unit_rng_def const_rng_def)
  from umap_degenerate_sizes [of "const_rng (1/2)" 2 15 "[Fin 0]"] u
  show ?thesis by (simp add: const_rng_def)
qed

theorem umap_empty_counterexample:
  "umap (const_rng (1/2)) [] 2 15 = Inl TypeError \<and> umap (const_rng (1/2)) [] 2 15 \<noteq> Inr []"
  by (simp add: umap_def)

section \<open>Claims about inputs outside the contract\<close>

text \<open>
  C3, as the code has it. Of the three contract violations only the empty embedding set
  fails loudly. The Distance Module does not compare the lengths: it returns NaN when
  the second vector is the shorter one and ignores the surplus of a longer one. The
  Cluster Engine does not compare the number of clusters with the number of samples:
  on a set with at least one sample it raises nothing for any K, so also for K > N, and
  whatever it returns is an assignment with one slot per sample.
\<close>

theorem contract_violations:
  "(length b < length a \<longrightarrow> euclideanDistance a b = NaN) \<and>
   (length a \<le> length b \<longrightarrow> euclideanDistance a b = euclideanDistance a (take (length a) b)) \<and>
   (unit_rng rnd \<and> embeddings \<noteq> [] \<longrightarrow>
      kmeans rnd embeddings k maxIterations \<noteq> Some (Inl TypeError) \<and>
      (\<forall>ls. kmeans rnd embeddings k maxIterations = Some (Inr ls) \<longrightarrow>
            length ls = length embeddings)) \<and>
   kmeans rnd [] k maxIterations = Some (Inl TypeError) \<and>
   umap rnd [] nComponents nNeighbors = Inl TypeError"
proof (intro conjI impI allI)
  assume "length b < length a"
  then show "euclideanDistance a b = NaN" by (rule euclideanDistance_short)
next
  assume "length a \<le> length b"
  then show "euclideanDistance a b = euclideanDistance a (take (length a) b)"
    by (rule euclideanDistance_long)
next
  assume a: "unit_rng rnd \<and> embeddings \<noteq> []"
  show "kmeans rnd embeddings k maxIterations \<noteq> Some (Inl TypeError)"
  proof
    assume e: "kmeans rnd embeddings k maxIterations = Some (Inl TypeError)"
    have "kmeans_run rnd embeddings k maxIterations = Some (Inl TypeError)"
    proof (cases "kmeans_run rnd embeddings k maxIterations")
      case None
      with e show ?thesis by (simp add: kmeans_def)
    next
      case (Some x)
      with e show ?thesis by (cases x) (simp_all add: kmeans_def)
    qed
    with a show False by (simp add: kmeans_run_no_error)
  qed
next
  fix ls
  assume "kmeans rnd embeddings k maxIterations = Some (Inr ls)"
  from kmeans_Inr [OF this] obtain r where
    run: "kmeans_run rnd embeddings k maxIterations = Some (Inr r)" and ls: "ls = run_labels r"
    by blast
  from kmeans_run_Inr [OF run] obtain cs where
    "r = iterate maxIterations embeddings k (length (hd embeddings)) cs
           (replicate (length embeddings) 0) 0 []"
    by blast
  then show "length ls = length embeddings"
    unfolding ls by (simp add: iterate_labels_length)
next
  show "kmeans rnd [] k maxIterations = Some (Inl TypeError)" by (rule kmeans_empty)
next
  show "umap rnd [] nComponents nNeighbors = Inl TypeError" by (simp add: umap_def)
qed

theorem contract_violations_witness:
  "length [Fin 1] < length [Fin 1, Fin 2] \<and> euclideanDistance [Fin 1, Fin 2] [Fin 1] = NaN \<and>
   length [Fin 1] \<le> length [Fin 1, Fin 2] \<and>
   euclideanDistance [Fin 1] [Fin 1, Fin 2] = euclideanDistance [Fin 1] [Fin 1] \<and>
   unit_rng (const_rng (1/2)) \<and> [[Fin 0]] \<noteq> [] \<and> length [[Fin 0]] < (2::nat) \<and>
   kmeans (const_rng (1/2)) [[Fin 0]] 2 50 \<noteq> Some (Inl TypeError) \<and>
   kmeans (const_rng (1/2)) [[Fin 0]] 2 50 = Some (Inr [0]) \<and>
   length [0::nat] = length [[Fin 0]] \<and>
   kmeans (const_rng (1/2)) [] 2 50 = Some (Inl TypeError) \<and>
   umap (const_rng (1/2)) [] 2 15 = Inl TypeError"
proof -
  have u: "unit_rng (const_rng (1/2)) \<and> [[Fin 0]] \<noteq> []"
    by (simp add: unit_rng_def const_rng_def)
  note s = contract_violations [of "[Fin 1]" "[Fin 1, Fin 2]" "const_rng (1/2)" "[[Fin 0]]" 2 50 2 15]
  note t = contract_violations [of "[Fin 1, Fin 2]" "[Fin 1]" "const_rng (1/2)" "[[Fin 0]]" 2 50 2 15]
  have a: "euclideanDistance [Fin 1, Fin 2] [Fin 1] = NaN"
    using s [THEN conjunct1] by simp
  have b: "euclideanDistance [Fin 1] [Fin 1, Fin 2] = euclideanDistance [Fin 1] [Fin 1]"
    using t [THEN conjunct2, THEN conjunct1] by simp
  from s [THEN conjunct2, THEN conjunct2, THEN conjunct1, THEN mp, OF u]
  have c: "kmeans (const_rng (1/2)) [[Fin 0]] 2 50 \<noteq> Some (Inl TypeError)" and
    d: "\<forall>ls. kmeans (const_rng (1/2)) [[Fin 0]] 2 50 = Some (Inr ls) \<longrightarrow>
           length ls = length [[Fin 0]]"
    by blast+
  from d [rule_format, OF kmeans_single] have e: "length [0::nat] = length [[Fin 0]]" .
  have f: "kmeans (const_rng (1/2)) [] 2 50 = Some (Inl TypeError) \<and>
           umap (const_rng (1/2)) [] 2 15 = Inl TypeError"
    using s by blast
  from a b c e f u kmeans_single show ?thesis by simp
qed

theorem contract_violations_counterexample:
  "euclideanDistance [Fin 1, Fin 2] [Fin 1] = NaN \<and>
   kmeans (const_rng (1/2)) [[Fin 0]] 2 50 = Some (Inr [0])"
  using euclideanDistance_short [of "[Fin 1]" "[Fin 1, Fin 2]"] kmeans_single by simp

section \<open>Properties of the Label Synthesizer\<close>

subsection \<open>Grouping\<close>

lemma push_text_apply:
  "push_text messages labels i g c =
     (if slot_at labels i = c
      then Some ((case g c of None \<Rightarrow> [] | Some t \<Rightarrow> t) @ [messages ! i])
      else g c)"
  by (auto simp: push_text_def Let_def)

lemma fold_push_text:
  "fold (push_text messages labels) xs g c =
     (case g c of
        None \<Rightarrow> (if filter (\<lambda>i. slot_at labels i = c) xs = [] then None
                 else Some (map (\<lambda>i. messages ! i) (filter (\<lambda>i. slot_at labels i = c) xs)))
      | Some t0 \<Rightarrow> Some (t0 @ map (\<lambda>i. messages ! i) (filter (\<lambda>i. slot_at labels i = c) xs)))"
proof (induction xs arbitrary: g)
  case Nil
  then show ?case by (simp split: option.splits)
next
  case (Cons i xs)
  define g' where "g' = push_text messages labels i g"
  have step: "fold (push_text messages labels) (i # xs) g c = fold (push_text messages labels) xs g' c"
    by (simp add: g'_def)
  have g': "g' c = (if slot_at labels i = c
      then Some ((case g c of None \<Rightarrow> [] | Some t \<Rightarrow> t) @ [messages ! i]) else g c)"
    unfolding g'_def by (rule push_text_apply)
  show ?case
    unfolding step Cons.IH [of g'] g'
    by (cases "g c") auto
qed

lemma group_texts_eq:
  "group_texts messages labels c =
     (let ts = map (\<lambda>i. messages ! i) (filter (\<lambda>i. slot_at labels i = c) [0..<length messages])
      in if ts = [] then None else Some ts)"
  by (simp add: group_texts_def fold_push_text Let_def)

lemma dom_group_texts:
  "dom (group_texts messages labels) = slot_at labels ` {..<length messages}"
  by (auto simp: group_texts_eq dom_def Let_def filter_empty_conv image_iff)

lemma dom_labelClusters_with:
  "dom (labelClusters_with stop suffix pre messages labels) = slot_at labels ` {..<length messages}"
  using dom_group_texts [of messages labels]
  by (auto simp: labelClusters_with_def dom_def)

subsection \<open>Counting\<close>

lemma fold_fold_concat:
  "fold (\<lambda>x s. fold f (g x) s) xs s = fold f (concat (map g xs)) s"
  by (induction xs arbitrary: s) simp_all

lemma count_words_tokens:
  "count_words stop texts = fold (\<lambda>word words. bump words word) (group_tokens stop texts) []"
  by (simp add: count_words_def group_tokens_def fold_fold_concat)

lemma first_seen_snoc:
  "first_seen (toks @ [w]) =
     (if w \<in> set (first_seen toks) then first_seen toks else first_seen toks @ [w])"
  by (simp add: first_seen_def)

lemma first_seen_set_distinct: "set (first_seen toks) = set toks \<and> distinct (first_seen toks)"
proof (induction toks rule: rev_induct)
  case Nil
  then show ?case by (simp add: first_seen_def)
next
  case (snoc w toks)
  then show ?case by (auto simp: first_seen_snoc)
qed

lemma bump_counted:
  assumes "w \<noteq> ''constructor''" "distinct ks"
  shows "bump (map (\<lambda>k. (k, Count (c k))) ks) w =
           (if w \<in> set ks then map (\<lambda>k. (k, Count (if k = w then Suc (c k) else c k))) ks
            else map (\<lambda>k. (k, Count (c k))) ks @ [(w, Count 1)])"
  using assms(2)
proof (induction ks)
  case Nil
  then show ?case using assms(1) by simp
next
  case (Cons k ks)
  show ?case
  proof (cases "k = w")
    case True
    with Cons.prems have "w \<notin> set ks" by simp
    then have "map (\<lambda>k. (k, Count (if k = w then Suc (c k) else c k))) ks =
               map (\<lambda>k. (k, Count (c k))) ks"
      by (intro map_cong) auto
    with True show ?thesis by simp
  next
    case False
    with Cons show ?thesis by simp
  qed
qed

lemma fold_bump_counts:
  "''constructor'' \<notin> set toks \<Longrightarrow>
   fold (\<lambda>word words. bump words word) toks [] =
     map (\<lambda>w. (w, Count (count_list toks w))) (first_seen toks)"
proof (induction toks rule: rev_induct)
  case Nil
  then show ?case by (simp add: first_seen_def)
next
  case (snoc w toks)
  let ?ks = "first_seen toks"
  have sd: "set ?ks = set toks" "distinct ?ks" using first_seen_set_distinct [of toks] by simp_all
  have w: "w \<noteq> ''constructor''" using snoc.prems by auto
  have "fold (\<lambda>word words. bump words word) (toks @ [w]) [] =
        bump (map (\<lambda>k. (k, Count (count_list toks k))) ?ks) w"
    using snoc by simp
  also have "\<dots> = map (\<lambda>k. (k, Count (count_list (toks @ [w]) k))) (first_seen (toks @ [w]))"
  proof (cases "w \<in> set toks")
    case True
    then show ?thesis
      by (simp add: bump_counted [OF w sd(2)] sd(1) first_seen_snoc)
  next
    case False
    then have "count_list toks w = 0" by (simp add: count_list_0_iff)
    moreover have "map (\<lambda>k. (k, Count (if k = w then Suc (count_list toks k) else count_list toks k))) ?ks =
        map (\<lambda>k. (k, Count (count_list toks k))) ?ks"
      using False sd(1) by (intro map_cong) auto
    ultimately show ?thesis
      using False by (auto simp: bump_counted [OF w sd(2)] sd(1) first_seen_snoc)
  qed
  finally show ?case .
qed

lemma count_words_counted:
  "''constructor'' \<notin> set (group_tokens stop texts) \<Longrightarrow>
   count_words stop texts = map counted (word_counts (group_tokens stop texts))"
  by (simp add: count_words_tokens fold_bump_counts word_counts_def counted_def comp_def)

subsection \<open>Order of the entries and of the sort\<close>

lemma insort_key_map_fst:
  assumes "\<And>x. fst (h x) = fst x"
  shows "insort_key (\<lambda>e. g (fst e)) (h x) (map h xs) = map h (insort_key (\<lambda>e. g (fst e)) x xs)"
  by (induction xs) (simp_all add: assms)

lemma sort_key_map_fst:
  assumes "\<And>x. fst (h x) = fst x"
  shows "sort_key (\<lambda>e. g (fst e)) (map h xs) = map h (sort_key (\<lambda>e. g (fst e)) xs)"
  by (induction xs) (simp_all add: insort_key_map_fst [OF assms])

lemma entries_map:
  assumes "\<And>x. fst (h x) = fst x"
  shows "entries (map h obj) = map h (entries obj)"
  by (simp add: entries_def filter_map comp_def assms sort_key_map_fst [OF assms])

lemma entries_no_index:
  "\<forall>e \<in> set obj. \<not> is_array_index (fst e) \<Longrightarrow> entries obj = obj"
  by (simp add: entries_def filter_empty_conv [THEN iffD2] filter_id_conv [THEN iffD2])

lemma js_insert_counted:
  "js_insert (\<lambda>a b. js_sub (count_number (snd b)) (count_number (snd a))) (counted x) (map counted ys) =
     map counted (insort_key neg_count x ys)"
  by (induction ys) (auto simp: counted_def neg_count_def js_gt0_def js_sub_def)

lemma js_sort_counted:
  "js_sort (\<lambda>a b. js_sub (count_number (snd b)) (count_number (snd a))) (map counted es) =
     map counted (sort_key neg_count es)"
  by (induction es) (simp_all add: js_sort_def js_insert_counted sort_key_def)

lemma first_max_None: "first_max es = None \<longleftrightarrow> es = []"
  by (cases es) (auto split: option.splits)

lemma sort_key_first_max:
  "first_max es = Some m \<Longrightarrow> sort_key neg_count es = m # sort_key neg_count (remove1 m es)"
proof (induction es arbitrary: m)
  case Nil
  then show ?case by simp
next
  case (Cons e es)
  show ?case
  proof (cases "first_max es")
    case None
    then have "es = []" by (simp add: first_max_None)
    with Cons.prems show ?thesis by simp
  next
    case (Some m')
    note IH = Cons.IH [OF Some]
    show ?thesis
    proof (cases "snd e < snd m'")
      case True
      with Cons.prems Some have m: "m = m'" by simp
      from True have ne: "e \<noteq> m'" by auto
      have "sort_key neg_count (e # es) =
            insort_key neg_count e (m' # sort_key neg_count (remove1 m' es))"
        by (simp add: IH)
      also have "\<dots> = m' # insort_key neg_count e (sort_key neg_count (remove1 m' es))"
        using True by (simp add: neg_count_def)
      also have "\<dots> = m' # sort_key neg_count (remove1 m' (e # es))"
        using ne by simp
      finally show ?thesis by (simp only: m)
    next
      case False
      with Cons.prems Some have m: "m = e" by simp
      have "sort_key neg_count (e # es) =
            insort_key neg_count e (m' # sort_key neg_count (remove1 m' es))"
        by (simp add: IH)
      also have "\<dots> = e # m' # sort_key neg_count (remove1 m' es)"
        using False by (simp add: neg_count_def)
      also have "\<dots> = e # sort_key neg_count es" by (simp add: IH)
      finally show ?thesis by (simp add: m)
    qed
  qed
qed

lemma make_label_sorted:
  "make_label suffix pre cluster (take 3 (map fst (sort_key neg_count es))) =
     (case top_two es of
        [] \<Rightarrow> pre @ slot_number cluster
      | [a] \<Rightarrow> capitalize a @ suffix
      | a # b # _ \<Rightarrow> capitalize a @ '' & '' @ capitalize b)"
proof (cases "first_max es")
  case None
  then have "es = []" by (simp add: first_max_None)
  then show ?thesis by (simp add: make_label_def top_two_def)
next
  case (Some a)
  note a = sort_key_first_max [OF Some]
  show ?thesis
  proof (cases "first_max (remove1 a es)")
    case None
    then have "remove1 a es = []" by (simp add: first_max_None)
    with a Some None show ?thesis by (simp add: make_label_def top_two_def)
  next
    case (Some b)
    note b = sort_key_first_max [OF Some]
    show ?thesis
      by (simp add: a b make_label_def top_two_def \<open>first_max es = Some a\<close> Some)
  qed
qed

lemma cluster_label_spec:
  assumes "''constructor'' \<notin> set (group_tokens stop texts)"
  shows "cluster_label stop suffix pre cluster texts =
           spec_label entries suffix pre cluster (group_tokens stop texts)"
proof -
  let ?wc = "word_counts (group_tokens stop texts)"
  have "top_words (count_words stop texts) = take 3 (map fst (sort_key neg_count (entries ?wc)))"
    by (simp add: top_words_def count_words_counted [OF assms] entries_map [of counted]
        js_sort_counted take_map comp_def counted_def)
  then show ?thesis
    by (simp add: cluster_label_def spec_label_def make_label_sorted)
qed

subsection \<open>A group whose tokens include a numeral\<close>

lemma words_python_2024: "text_words stopwords ''python 2024'' = [''python'', ''2024'']"
  by (simp add: text_words_def stopwords_def lower_char_def replace_other_def is_alnum_def is_space_def)

lemma tokens_python_2024: "group_tokens stopwords [''python 2024''] = [''python'', ''2024'']"
  by (simp add: group_tokens_def words_python_2024)

lemma index_2024: "is_array_index ''2024''" "index_value ''2024'' = 2024" "\<not> is_array_index ''python''"
  by (simp_all add: is_array_index_def index_value_def is_digit_def digit_value_def upt_rec)

lemma entries_python_2024:
  "entries [(''python'', Count 1), (''2024'', Count 1)] = [(''2024'', Count 1), (''python'', Count 1)]"
  by (simp add: entries_def index_2024)

lemma label_python_2024:
  "cluster_label stopwords [] ''Topic '' (Slot 0) [''python 2024''] = ''2024 & Python''"
proof -
  have cw: "count_words stopwords [''python 2024''] = [(''python'', Count 1), (''2024'', Count 1)]"
    by (simp add: count_words_def words_python_2024)
  have tw: "top_words [(''python'', Count 1), (''2024'', Count 1)] = [''2024'', ''python'']"
    unfolding top_words_def entries_python_2024
    by (simp add: js_sort_def js_gt0_def js_sub_def)
  show ?thesis
    unfolding cluster_label_def cw tw
    by (simp add: make_label_def capitalize_def upper_char_def)
qed

lemma group_python_2024: "group_texts [''python 2024''] [0] (Slot 0) = Some [''python 2024'']"
  by (simp add: group_texts_eq slot_at_def)

lemma spec_python_2024:
  "spec_label first_encountered [] ''Topic '' (Slot 0) [''python'', ''2024''] = ''Python & 2024''"
  by (simp add: spec_label_def first_encountered_def word_counts_def first_seen_def top_two_def
      capitalize_def upper_char_def)

lemma words_old_python_2024: "text_words stopwords_old ''python 2024'' = [''python'', ''2024'']"
  by (simp add: text_words_def stopwords_old_def lower_char_def replace_other_def is_alnum_def is_space_def)

lemma split_ws_chars:
  "\<forall>c \<in> set cur. \<not> is_space c \<Longrightarrow>
   \<forall>w \<in> set (split_ws inrun cur s). \<forall>c \<in> set w. c \<in> set cur \<union> set s \<and> \<not> is_space c"
proof (induction s arbitrary: inrun cur)
  case Nil
  then show ?case by simp
next
  case (Cons c s)
  show ?case
  proof (cases "is_space c")
    case True
    have e: "\<forall>c \<in> set ([] :: string). \<not> is_space c" by simp
    from Cons.IH [OF Cons.prems, of True] Cons.IH [OF e, of True] Cons.prems True
    show ?thesis by (cases inrun) auto
  next
    case False
    with Cons.prems have "\<forall>x \<in> set (cur @ [c]). \<not> is_space x" by auto
    from Cons.IH [OF this, of False] False show ?thesis by auto
  qed
qed

lemma text_words_shape:
  "\<forall>w \<in> set (text_words stop txt). 2 < length w \<and> w \<notin> set stop \<and> (\<forall>c \<in> set w. is_alnum c)"
proof -
  let ?s = "replace_other (map lower_char txt)"
  have "\<forall>c \<in> set ?s. is_alnum c \<or> is_space c"
    by (auto simp: replace_other_def is_space_def)
  moreover have "\<forall>w \<in> set (split_ws False [] ?s). \<forall>c \<in> set w. c \<in> set [] \<union> set ?s \<and> \<not> is_space c"
    by (rule split_ws_chars) simp
  ultimately show ?thesis
    unfolding text_words_def by auto
qed

lemma spec_label_no_index:
  assumes "\<forall>w \<in> set toks. \<not> is_array_index w"
  shows "spec_label entries suffix pre cluster toks =
         spec_label first_encountered suffix pre cluster toks"
proof -
  have "\<forall>e \<in> set (word_counts toks). \<not> is_array_index (fst e)"
    using assms first_seen_set_distinct [of toks] by (auto simp: word_counts_def)
  then have "entries (word_counts toks) = word_counts toks" by (rule entries_no_index)
  then show ?thesis by (simp add: spec_label_def first_encountered_def)
qed

section \<open>Claims about the Label Synthesizer\<close>

text \<open>
  C10. The Label Synthesizer produces a label for exactly the cluster slots that have a
  member sample: a slot to which no sample is assigned has no entry in the label map,
  not even a fallback label.
\<close>

theorem labels_only_for_members:
  "dom (labelClusters messages labels) = slot_at labels ` {..<length messages} \<and>
   dom (labelClusters_old messages labels) = slot_at labels ` {..<length messages}"
  by (simp add: labelClusters_def labelClusters_old_def dom_labelClusters_with)

theorem labels_only_for_members_witness:
  "labelClusters [''hello there'', ''hi''] [2, 0] (Slot 1) = None \<and>
   labelClusters [''hello there'', ''hi''] [2, 0] (Slot 2) \<noteq> None \<and>
   labelClusters_old [''hello there'', ''hi''] [2, 0] (Slot 1) = None"
proof -
  have "slot_at [2, 0] ` {..<length [''hello there'', ''hi'']} = {Slot 2, Slot 0}"
    by (auto simp: slot_at_def lessThan_Suc less_Suc_eq)
  with labels_only_for_members [of "[''hello there'', ''hi'']" "[2, 0]"]
  have "dom (labelClusters [''hello there'', ''hi''] [2, 0]) = {Slot 2, Slot 0}"
    "dom (labelClusters_old [''hello there'', ''hi''] [2, 0]) = {Slot 2, Slot 0}"
    by simp_all
  then have "Slot 1 \<notin> dom (labelClusters [''hello there'', ''hi''] [2, 0])"
    "Slot 2 \<in> dom (labelClusters [''hello there'', ''hi''] [2, 0])"
    "Slot 1 \<notin> dom (labelClusters_old [''hello there'', ''hi''] [2, 0])"
    by simp_all
  then show ?thesis by (simp add: domIff)
qed

text \<open>
  C6, as the code has it. For a cluster group with at least one text, the label is made
  from the words of its texts (lower-cased, every character but a to z, 0 to 9 and white
  space replaced by a space, split at white space, words of length at most 2 and
  stopwords dropped) by the rule of the specification: the two most frequent words,
  capitalized and joined by " & "; one word, capitalized (with the suffix " Topics" in the
  older copy); or the positional fallback. Equally frequent words are ranked in the order
  in which the counting object lists its keys: the words that are array indices first, by
  ascending value, then the others as first encountered. A group in which the word
  "constructor" occurs is left out.
\<close>

theorem label_rule:
  assumes "group_texts messages labels cluster = Some texts"
  shows "(''constructor'' \<notin> set (group_tokens stopwords texts) \<longrightarrow>
            labelClusters messages labels cluster =
              Some (spec_label entries [] ''Topic '' cluster (group_tokens stopwords texts))) \<and>
         (''constructor'' \<notin> set (group_tokens stopwords_old texts) \<longrightarrow>
            labelClusters_old messages labels cluster =
              Some (spec_label entries '' Topics'' ''Cluster '' cluster
                      (group_tokens stopwords_old texts))) \<and>
         ((\<forall>w \<in> set toks. \<not> is_array_index w) \<longrightarrow>
            spec_label entries suffix pre cluster toks =
            spec_label first_encountered suffix pre cluster toks) \<and>
         (\<forall>w \<in> set (group_tokens stopwords texts).
            2 < length w \<and> w \<notin> set stopwords \<and> (\<forall>c \<in> set w. is_alnum c))"
proof (intro conjI impI)
  assume "''constructor'' \<notin> set (group_tokens stopwords texts)"
  then show "labelClusters messages labels cluster =
      Some (spec_label entries [] ''Topic '' cluster (group_tokens stopwords texts))"
    by (simp add: labelClusters_def labelClusters_with_def assms cluster_label_spec)
next
  assume "''constructor'' \<notin> set (group_tokens stopwords_old texts)"
  then show "labelClusters_old messages labels cluster =
      Some (spec_label entries '' Topics'' ''Cluster '' cluster (group_tokens stopwords_old texts))"
    by (simp add: labelClusters_old_def labelClusters_with_def assms cluster_label_spec)
next
  assume "\<forall>w \<in> set toks. \<not> is_array_index w"
  then show "spec_label entries suffix pre cluster toks =
      spec_label first_encountered suffix pre cluster toks"
    by (rule spec_label_no_index)
next
  show "\<forall>w \<in> set (group_tokens stopwords texts).
      2 < length w \<and> w \<notin> set stopwords \<and> (\<forall>c \<in> set w. is_alnum c)"
    using text_words_shape [of stopwords] by (auto simp: group_tokens_def)
qed

theorem label_rule_witness:
  "group_texts [''python 2024''] [0] (Slot 0) = Some [''python 2024''] \<and>
   ''constructor'' \<notin> set (group_tokens stopwords [''python 2024'']) \<and>
   labelClusters [''python 2024''] [0] (Slot 0) =
     Some (spec_label entries [] ''Topic '' (Slot 0) [''python'', ''2024'']) \<and>
   ''constructor'' \<notin> set (group_tokens stopwords_old [''python 2024'']) \<and>
   labelClusters_old [''python 2024''] [0] (Slot 0) =
     Some (spec_label entries '' Topics'' ''Cluster '' (Slot 0) [''python'', ''2024'']) \<and>
   \<not> is_array_index ''python'' \<and>
   spec_label entries [] ''Topic '' (Slot 0) [''python''] =
   spec_label first_encountered [] ''Topic '' (Slot 0) [''python'']"
proof -
  have t: "group_tokens stopwords [''python 2024''] = [''python'', ''2024'']"
    "group_tokens stopwords_old [''python 2024''] = [''python'', ''2024'']"
    by (simp_all add: group_tokens_def words_python_2024 words_old_python_2024)
  have c: "''constructor'' \<notin> set [''python'', ''2024'']" by simp
  have i: "\<forall>w \<in> set [''python'']. \<not> is_array_index w" by (simp add: index_2024)
  from label_rule [OF group_python_2024, of "[''python'']" "[]" "''Topic ''"] c i
  show ?thesis by (simp add: t group_python_2024 index_2024)
qed

theorem label_rule_counterexample:
  "labelClusters [''python 2024''] [0] (Slot 0) = Some ''2024 & Python'' \<and>
   spec_label first_encountered [] ''Topic '' (Slot 0) (group_tokens stopwords [''python 2024'']) =
     ''Python & 2024''"
  by (simp add: labelClusters_def labelClusters_with_def group_python_2024 label_python_2024
      tokens_python_2024 spec_python_2024)

end
